theory Spec2Isabelle
  imports Main
begin

section \<open>Strings and characters\<close>

text \<open>
  A JavaScript string is a sequence of UTF-16 code units. The model covers the strings
  whose code units are below 256: a \<^typ>\<open>char\<close> is the code unit with that number, so
  \<^term>\<open>CHR 0x0A\<close> is the line feed and \<^term>\<open>CHR 0xA0\<close> the no-break space.
  The classes below are the ECMAScript ones cut down to this range: \<open>\d\<close> is
  \<open>0-9\<close>; \<open>\s\<close> (and what \<open>trim\<close> strips) is WhiteSpace and LineTerminator,
  here TAB, LF, VT, FF, CR, SP and NBSP; a line terminator is LF or CR.
\<close>

definition is_digit :: "char \<Rightarrow> bool" where
  "is_digit c = (c \<in> set ''0123456789'')"

definition is_space :: "char \<Rightarrow> bool" where
  "is_space c = (c \<in> set [CHR 0x09, CHR 0x0A, CHR 0x0B, CHR 0x0C, CHR 0x0D, CHR 0x20, CHR 0xA0])"

definition is_line_terminator :: "char \<Rightarrow> bool" where
  "is_line_terminator c = (c = CHR 0x0A \<or> c = CHR 0x0D)"

text \<open>
  \<open>toUpperCase\<close> on the letters \<open>a-z\<close>. The source applies it to a match of
  \<open>/(am|pm)/i\<close> only, and the regular expressions compare canonical forms with the
  literals \<open>A\<close>, \<open>M\<close>, \<open>P\<close> and with punctuation only, so the letters beyond ASCII
  (which never map to an ASCII character) are left as they are.
\<close>

definition upper_char :: "char \<Rightarrow> char" where
  "upper_char c =
     (case map_of (zip ''abcdefghijklmnopqrstuvwxyz'' ''ABCDEFGHIJKLMNOPQRSTUVWXYZ'') c of
        Some u \<Rightarrow> u
      | None \<Rightarrow> c)"

definition toUpperCase :: "string \<Rightarrow> string" where
  "toUpperCase s = map upper_char s"

text \<open>\<open>String.prototype.trim\<close>: white space is removed from both ends.\<close>

definition trim :: "string \<Rightarrow> string" where
  "trim s = rev (dropWhile is_space (rev (dropWhile is_space s)))"

text \<open>\<open>text.split('\n')\<close>: the pieces between line feeds; never an empty list.\<close>

fun split_nl :: "string \<Rightarrow> string list" where
  "split_nl [] = [[]]"
| "split_nl (c # cs) =
     (if c = CHR 0x0A then [] # split_nl cs
      else (case split_nl cs of
              [] \<Rightarrow> [[c]]
            | l # ls \<Rightarrow> (c # l) # ls))"

text \<open>\<open>pieces.join('\n')\<close>.\<close>

fun join_nl :: "string list \<Rightarrow> string" where
  "join_nl [] = []"
| "join_nl [l] = l"
| "join_nl (l # ls) = l @ CHR 0x0A # join_nl ls"

section \<open>Regular expressions\<close>

text \<open>
  The syntax of the regular expressions the source uses. Every quantifier of the source
  but one stands on a character class (\<open>[\d:]+\<close>, \<open>\s*\<close>, \<open>.+\<close>,
  \<open>[^\d\n]+?\<close>); the other is the optional group \<open>(?:AM|PM)?\<close>.
\<close>

datatype item = Ch char | Digit | Space

datatype cset = Dot | Set "item list" | NotSet "item list"

datatype re =
    Eps
  | Lit char
  | One cset
  | Star cset
  | Plus cset
  | PlusLazy cset
  | Opt re
  | Alt re re
  | Seq re re
  | Grp nat re
  | Bol
  | Eol

fun seqs :: "re list \<Rightarrow> re" where
  "seqs [] = Eps"
| "seqs [r] = r"
| "seqs (r # rs) = Seq r (seqs rs)"

record flags =
  ignoreCase :: bool
  multiline :: bool

text \<open>
  The state of a match: the character before the current position (none at the start of
  the input), the input from the current position on, and the captures so far. A
  continuation takes the state after a part of the pattern and returns the final state
  of the whole match, or \<open>None\<close> for failure; this is the backtracking semantics of
  ECMA-262 (22.2.2), whose matchers take a state and a continuation.
\<close>

record mstate =
  prev :: "char option"
  rest :: string
  caps :: "nat \<rightharpoonup> string"

type_synonym cont = "mstate \<Rightarrow> mstate option"

definition canonicalize :: "flags \<Rightarrow> char \<Rightarrow> char" where
  "canonicalize f c = (if ignoreCase f then upper_char c else c)"

fun in_item :: "flags \<Rightarrow> char \<Rightarrow> item \<Rightarrow> bool" where
  "in_item f x (Ch c) = (canonicalize f x = canonicalize f c)"
| "in_item f x Digit = is_digit x"
| "in_item f x Space = is_space x"

fun in_cset :: "flags \<Rightarrow> cset \<Rightarrow> char \<Rightarrow> bool" where
  "in_cset f Dot x = (\<not> is_line_terminator x)"
| "in_cset f (Set is) x = list_ex (in_item f x) is"
| "in_cset f (NotSet is) x = (\<not> list_ex (in_item f x) is)"

text \<open>One character of the input, if it satisfies \<open>p\<close>.\<close>

definition one_char :: "(char \<Rightarrow> bool) \<Rightarrow> cont \<Rightarrow> cont" where
  "one_char p k st =
     (case rest st of
        [] \<Rightarrow> None
      | x # xs \<Rightarrow> if p x then k \<lparr>prev = Some x, rest = xs, caps = caps st\<rparr> else None)"

text \<open>
  A greedy star takes one more character first and falls back to the continuation; a
  lazy star tries the continuation first.
\<close>

fun star_greedy :: "(char \<Rightarrow> bool) \<Rightarrow> cont \<Rightarrow> char option \<Rightarrow> string \<Rightarrow> (nat \<rightharpoonup> string) \<Rightarrow> mstate option" where
  "star_greedy p k pv [] cp = k \<lparr>prev = pv, rest = [], caps = cp\<rparr>"
| "star_greedy p k pv (x # xs) cp =
     (if p x then
        (case star_greedy p k (Some x) xs cp of
           Some r \<Rightarrow> Some r
         | None \<Rightarrow> k \<lparr>prev = pv, rest = x # xs, caps = cp\<rparr>)
      else k \<lparr>prev = pv, rest = x # xs, caps = cp\<rparr>)"

fun star_lazy :: "(char \<Rightarrow> bool) \<Rightarrow> cont \<Rightarrow> char option \<Rightarrow> string \<Rightarrow> (nat \<rightharpoonup> string) \<Rightarrow> mstate option" where
  "star_lazy p k pv [] cp = k \<lparr>prev = pv, rest = [], caps = cp\<rparr>"
| "star_lazy p k pv (x # xs) cp =
     (case k \<lparr>prev = pv, rest = x # xs, caps = cp\<rparr> of
        Some r \<Rightarrow> Some r
      | None \<Rightarrow> if p x then star_lazy p k (Some x) xs cp else None)"

definition star :: "bool \<Rightarrow> (char \<Rightarrow> bool) \<Rightarrow> cont \<Rightarrow> cont" where
  "star greedy p k st =
     (if greedy then star_greedy p k (prev st) (rest st) (caps st)
      else star_lazy p k (prev st) (rest st) (caps st))"

text \<open>
  The matcher of a pattern. An optional part that matched the empty string is rejected
  (the empty check of RepeatMatcher); a group stores the text it matched; \<open>^\<close> holds at
  the start of the input and, with the flag \<open>m\<close>, after a line terminator; \<open>$\<close> holds
  at the end of the input and, with the flag \<open>m\<close>, before a line terminator.
\<close>

primrec rmatch :: "flags \<Rightarrow> re \<Rightarrow> cont \<Rightarrow> cont" where
  "rmatch f Eps k = k"
| "rmatch f (Lit c) k = one_char (\<lambda>x. canonicalize f x = canonicalize f c) k"
| "rmatch f (One cs) k = one_char (in_cset f cs) k"
| "rmatch f (Star cs) k = star True (in_cset f cs) k"
| "rmatch f (Plus cs) k = one_char (in_cset f cs) (star True (in_cset f cs) k)"
| "rmatch f (PlusLazy cs) k = one_char (in_cset f cs) (star False (in_cset f cs) k)"
| "rmatch f (Opt a) k =
     (\<lambda>st. case rmatch f a (\<lambda>st'. if length (rest st') = length (rest st) then None else k st') st of
             Some r \<Rightarrow> Some r
           | None \<Rightarrow> k st)"
| "rmatch f (Alt a b) k =
     (\<lambda>st. case rmatch f a k st of
             Some r \<Rightarrow> Some r
           | None \<Rightarrow> rmatch f b k st)"
| "rmatch f (Seq a b) k = rmatch f a (rmatch f b k)"
| "rmatch f (Grp i a) k =
     (\<lambda>st. rmatch f a
             (\<lambda>st'. k (st'\<lparr>caps := (caps st')(i \<mapsto> take (length (rest st) - length (rest st')) (rest st))\<rparr>))
             st)"
| "rmatch f Bol k =
     (\<lambda>st. case prev st of
             None \<Rightarrow> k st
           | Some c \<Rightarrow> if multiline f \<and> is_line_terminator c then k st else None)"
| "rmatch f Eol k =
     (\<lambda>st. case rest st of
             [] \<Rightarrow> k st
           | c # cs \<Rightarrow> if multiline f \<and> is_line_terminator c then k st else None)"

record regex =
  pattern :: re
  flag :: flags

text \<open>The match of a pattern that starts at the current position.\<close>

definition match_here :: "regex \<Rightarrow> char option \<Rightarrow> string \<Rightarrow> mstate option" where
  "match_here r pv s = rmatch (flag r) (pattern r) Some \<lparr>prev = pv, rest = s, caps = Map.empty\<rparr>"

text \<open>
  \<open>RegExp.prototype.exec\<close> for a pattern without the flag \<open>g\<close>: the start positions
  are tried from the left. The result is the text before the match, the match, the
  captures and the text after the match.
\<close>

record found =
  leading :: string
  matched :: string
  groups :: "nat \<rightharpoonup> string"
  trailing :: string

fun exec_from :: "regex \<Rightarrow> char option \<Rightarrow> string \<Rightarrow> found option" where
  "exec_from r pv [] =
     (case match_here r pv [] of
        Some st \<Rightarrow> Some \<lparr>leading = [], matched = [], groups = caps st, trailing = []\<rparr>
      | None \<Rightarrow> None)"
| "exec_from r pv (c # cs) =
     (case match_here r pv (c # cs) of
        Some st \<Rightarrow>
          Some \<lparr>leading = [], matched = take (length (c # cs) - length (rest st)) (c # cs),
                groups = caps st, trailing = rest st\<rparr>
      | None \<Rightarrow>
          (case exec_from r (Some c) cs of
             Some fd \<Rightarrow> Some (fd\<lparr>leading := c # leading fd\<rparr>)
           | None \<Rightarrow> None))"

definition exec :: "regex \<Rightarrow> string \<Rightarrow> found option" where
  "exec r s = exec_from r None s"

text \<open>\<open>pattern.test(s)\<close>.\<close>

definition test :: "regex \<Rightarrow> string \<Rightarrow> bool" where
  "test r s = (exec r s \<noteq> None)"

text \<open>
  \<open>s.replace(r, ...)\<close> for a pattern without the flag \<open>g\<close>: the leftmost match is
  replaced. The replacement is a function of the match and its groups, which covers a
  template such as \<open>'$1 $2'\<close> as well as a callback.
\<close>

definition replace_first :: "regex \<Rightarrow> (string \<Rightarrow> (nat \<rightharpoonup> string) \<Rightarrow> string) \<Rightarrow> string \<Rightarrow> string" where
  "replace_first r sub s =
     (case exec r s of
        None \<Rightarrow> s
      | Some fd \<Rightarrow> leading fd @ sub (matched fd) (groups fd) @ trailing fd)"

text \<open>
  \<open>s.replace(r, ...)\<close> for a pattern with the flag \<open>g\<close>: every match is replaced,
  the search going on where the last match ended (one character further after an empty
  match). \<open>skip\<close> counts the characters of the last match still to pass.
\<close>

fun replace_all_from :: "regex \<Rightarrow> (string \<Rightarrow> (nat \<rightharpoonup> string) \<Rightarrow> string) \<Rightarrow> nat \<Rightarrow> char option \<Rightarrow> string \<Rightarrow> string" where
  "replace_all_from r sub skip pv [] =
     (if skip = 0 then
        (case match_here r pv [] of
           Some st \<Rightarrow> sub [] (caps st)
         | None \<Rightarrow> [])
      else [])"
| "replace_all_from r sub skip pv (c # cs) =
     (if 0 < skip then replace_all_from r sub (skip - 1) (Some c) cs
      else
        (case match_here r pv (c # cs) of
           None \<Rightarrow> c # replace_all_from r sub 0 (Some c) cs
         | Some st \<Rightarrow>
             (let n = length (c # cs) - length (rest st)
              in sub (take n (c # cs)) (caps st) @
                 (if n = 0 then c # replace_all_from r sub 0 (Some c) cs
                  else replace_all_from r sub (n - 1) (Some c) cs))))"

definition replace_all :: "regex \<Rightarrow> (string \<Rightarrow> (nat \<rightharpoonup> string) \<Rightarrow> string) \<Rightarrow> string \<Rightarrow> string" where
  "replace_all r sub s = replace_all_from r sub 0 None s"

text \<open>A group in a replacement template: a group that took no part reads as empty.\<close>

definition subst_group :: "(nat \<rightharpoonup> string) \<Rightarrow> nat \<Rightarrow> string" where
  "subst_group g i = (case g i of None \<Rightarrow> [] | Some w \<Rightarrow> w)"

section \<open>The rule table\<close>

definition no_flags :: flags where
  "no_flags = \<lparr>ignoreCase = False, multiline = False\<rparr>"

definition flags_i :: flags where
  "flags_i = \<lparr>ignoreCase = True, multiline = False\<rparr>"

definition flags_im :: flags where
  "flags_im = \<lparr>ignoreCase = True, multiline = True\<rparr>"

text \<open>The time of every rule: \<open>[\d:]+\s*(?:AM|PM)?\<close>.\<close>

definition time_part :: re where
  "time_part =
     seqs [Plus (Set [Digit, Ch CHR '':'']), Star (Set [Space]),
           Opt (Alt (seqs [Lit CHR ''A'', Lit CHR ''M'']) (seqs [Lit CHR ''P'', Lit CHR ''M'']))]"

text \<open>\<open>/^(.+)\n([\d:]+\s*(?:AM|PM)?)\n(.+)/im\<close>\<close>

definition imessage_re :: regex where
  "imessage_re =
     \<lparr>pattern = seqs [Bol, Grp 1 (Plus Dot), Lit CHR 0x0A, Grp 2 time_part, Lit CHR 0x0A,
                      Grp 3 (Plus Dot)],
      flag = flags_im\<rparr>"

text \<open>\<open>/\[([\d:]+\s*(?:AM|PM)?)\]\s*([^:]+):\s*(.+)/i\<close>\<close>

definition discord_re :: regex where
  "discord_re =
     \<lparr>pattern = seqs [Lit CHR ''['', Grp 1 time_part, Lit CHR '']'', Star (Set [Space]),
                      Grp 2 (Plus (NotSet [Ch CHR '':''])), Lit CHR '':'', Star (Set [Space]),
                      Grp 3 (Plus Dot)],
      flag = flags_i\<rparr>"

text \<open>\<open>/([\d:]+\s*(?:AM|PM)?)\s*-\s*([^:]+):\s*(.+)/i\<close>\<close>

definition whatsapp1_re :: regex where
  "whatsapp1_re =
     \<lparr>pattern = seqs [Grp 1 time_part, Star (Set [Space]), Lit CHR ''-'', Star (Set [Space]),
                      Grp 2 (Plus (NotSet [Ch CHR '':''])), Lit CHR '':'', Star (Set [Space]),
                      Grp 3 (Plus Dot)],
      flag = flags_i\<rparr>"

text \<open>\<open>/([^,]+),\s*([\d:]+\s*(?:AM|PM)?):\s*(.+)/i\<close>\<close>

definition whatsapp2_re :: regex where
  "whatsapp2_re =
     \<lparr>pattern = seqs [Grp 1 (Plus (NotSet [Ch CHR '',''])), Lit CHR '','', Star (Set [Space]),
                      Grp 2 time_part, Lit CHR '':'', Star (Set [Space]), Grp 3 (Plus Dot)],
      flag = flags_i\<rparr>"

text \<open>\<open>/^([^\d\n]+)\s+([\d:]+\s*(?:AM|PM)?)\n(.+)/im\<close>\<close>

definition slack_re :: regex where
  "slack_re =
     \<lparr>pattern = seqs [Bol, Grp 1 (Plus (NotSet [Digit, Ch CHR 0x0A])), Plus (Set [Space]),
                      Grp 2 time_part, Lit CHR 0x0A, Grp 3 (Plus Dot)],
      flag = flags_im\<rparr>"

text \<open>\<open>/([^(]+)\s*\(([\d:]+\s*(?:AM|PM)?)\):\s*(.+)/i\<close>\<close>

definition generic1_re :: regex where
  "generic1_re =
     \<lparr>pattern = seqs [Grp 1 (Plus (NotSet [Ch CHR ''(''])), Star (Set [Space]), Lit CHR ''('',
                      Grp 2 time_part, Lit CHR '')'', Lit CHR '':'', Star (Set [Space]),
                      Grp 3 (Plus Dot)],
      flag = flags_i\<rparr>"

text \<open>\<open>/([^\[]+)\s*\[([\d:]+\s*(?:AM|PM)?)\]\n(.+)/im\<close>\<close>

definition telegram_re :: regex where
  "telegram_re =
     \<lparr>pattern = seqs [Grp 1 (Plus (NotSet [Ch CHR ''[''])), Star (Set [Space]), Lit CHR ''['',
                      Grp 2 time_part, Lit CHR '']'', Lit CHR 0x0A, Grp 3 (Plus Dot)],
      flag = flags_im\<rparr>"

text \<open>\<open>/^([^\d\n]+?)\s*([\d:]+\s*(?:AM|PM)?)\n(.+)/im\<close>\<close>

definition sms_re :: regex where
  "sms_re =
     \<lparr>pattern = seqs [Bol, Grp 1 (PlusLazy (NotSet [Digit, Ch CHR 0x0A])), Star (Set [Space]),
                      Grp 2 time_part, Lit CHR 0x0A, Grp 3 (Plus Dot)],
      flag = flags_im\<rparr>"

text \<open>\<open>/\[([\d:]+\s*(?:AM|PM)?)\]\s*([^:]+):\s*(.+)/i\<close>\<close>

definition standard_re :: regex where
  "standard_re =
     \<lparr>pattern = seqs [Lit CHR ''['', Grp 1 time_part, Lit CHR '']'', Star (Set [Space]),
                      Grp 2 (Plus (NotSet [Ch CHR '':''])), Lit CHR '':'', Star (Set [Space]),
                      Grp 3 (Plus Dot)],
      flag = flags_i\<rparr>"

text \<open>
  \<open>this.patterns\<close>: an object with string keys, which \<open>Object.entries\<close> lists in the
  order of insertion.
\<close>

definition patterns :: "(string \<times> regex) list" where
  "patterns =
     [(''imessage'', imessage_re), (''discord'', discord_re), (''whatsapp1'', whatsapp1_re),
      (''whatsapp2'', whatsapp2_re), (''slack'', slack_re), (''generic1'', generic1_re),
      (''telegram'', telegram_re), (''sms'', sms_re), (''standard'', standard_re)]"

section \<open>The field normalizer\<close>

text \<open>\<open>/['"]/g\<close>, \<open>/\s+/g\<close> and \<open>/:+$/\<close> (the class \<open>[:]\<close> stands for the literal).\<close>

definition quotes_re :: regex where
  "quotes_re = \<lparr>pattern = One (Set [Ch CHR 0x27, Ch CHR 0x22]), flag = no_flags\<rparr>"

definition spaces_re :: regex where
  "spaces_re = \<lparr>pattern = Plus (Set [Space]), flag = no_flags\<rparr>"

definition colons_re :: regex where
  "colons_re = \<lparr>pattern = seqs [Plus (Set [Ch CHR '':'']), Eol], flag = no_flags\<rparr>"

definition cleanUsername :: "string \<Rightarrow> string" where
  "cleanUsername name =
     (let name1 = replace_all quotes_re (\<lambda>m g. []) name;
          name2 = trim (replace_all spaces_re (\<lambda>m g. '' '') name1)
      in replace_first colons_re (\<lambda>m g. []) name2)"

text \<open>\<open>/(\d)(AM|PM)/i\<close> and \<open>/(am|pm)/i\<close>.\<close>

definition digit_meridiem_re :: regex where
  "digit_meridiem_re =
     \<lparr>pattern = seqs [Grp 1 (One (Set [Digit])),
                      Grp 2 (Alt (seqs [Lit CHR ''A'', Lit CHR ''M'']) (seqs [Lit CHR ''P'', Lit CHR ''M'']))],
      flag = flags_i\<rparr>"

definition meridiem_re :: regex where
  "meridiem_re =
     \<lparr>pattern = Grp 1 (Alt (seqs [Lit CHR ''a'', Lit CHR ''m'']) (seqs [Lit CHR ''p'', Lit CHR ''m''])),
      flag = flags_i\<rparr>"

definition normalizeTime :: "string \<Rightarrow> string" where
  "normalizeTime time0 =
     (let time1 = replace_first digit_meridiem_re (\<lambda>m g. subst_group g 1 @ '' '' @ subst_group g 2) time0
      in replace_first meridiem_re (\<lambda>m g. toUpperCase m) time1)"

section \<open>The line classifier\<close>

record message =
  time :: string
  user :: string
  content :: string
  format :: string

text \<open>
  \<open>match[i].trim()\<close> throws a TypeError when the group \<open>i\<close> took no part in the match.
\<close>

datatype error = TypeError

definition trimmed_group :: "(nat \<rightharpoonup> string) \<Rightarrow> nat \<Rightarrow> error + string" where
  "trimmed_group g i = (case g i of None \<Rightarrow> Inl TypeError | Some w \<Rightarrow> Inr (trim w))"

text \<open>
  The body of the loop of \<open>parseLine\<close> for a match: the three fields in the order of
  the rule, then the message. A tag that none of the branches names would leave the
  fields undefined, and \<open>cleanUsername\<close> would throw.
\<close>

definition build_message :: "string \<Rightarrow> string \<Rightarrow> string \<Rightarrow> string \<Rightarrow> message" where
  "build_message fmt t u c =
     \<lparr>time = normalizeTime t, user = cleanUsername u, content = c, format = fmt\<rparr>"

definition on_match :: "string \<Rightarrow> (nat \<rightharpoonup> string) \<Rightarrow> error + message" where
  "on_match fmt g =
     (case (trimmed_group g 1, trimmed_group g 2, trimmed_group g 3) of
        (Inr g1, Inr g2, Inr g3) \<Rightarrow>
          if fmt = ''imessage'' \<or> fmt = ''slack'' \<or> fmt = ''telegram'' \<or> fmt = ''sms''
          then Inr (build_message fmt g2 g1 g3)
          else if fmt = ''whatsapp1'' then Inr (build_message fmt g1 g2 g3)
          else if fmt = ''whatsapp2'' then Inr (build_message fmt g2 g1 g3)
          else if fmt = ''discord'' \<or> fmt = ''standard'' then Inr (build_message fmt g1 g2 g3)
          else if fmt = ''generic1'' then Inr (build_message fmt g2 g1 g3)
          else Inl TypeError
      | _ \<Rightarrow> Inl TypeError)"

fun parseLine_loop :: "(string \<times> regex) list \<Rightarrow> string \<Rightarrow> error + message option" where
  "parseLine_loop [] line = Inr None"
| "parseLine_loop ((fmt, pat) # ps) line =
     (case exec pat line of
        None \<Rightarrow> parseLine_loop ps line
      | Some fd \<Rightarrow>
          (case on_match fmt (groups fd) of
             Inl e \<Rightarrow> Inl e
           | Inr msg \<Rightarrow> Inr (Some msg)))"

definition parseLine :: "string \<Rightarrow> error + message option" where
  "parseLine line = parseLine_loop patterns line"

section \<open>The message accumulator\<close>

text \<open>
  The loop of \<open>parse\<close> over the lines, with \<open>messages\<close> and \<open>currentMessage\<close> as its
  state; the last equation is the code after the loop.
\<close>

fun parse_loop :: "string list \<Rightarrow> message list \<Rightarrow> message option \<Rightarrow> error + message list" where
  "parse_loop [] messages currentMessage =
     (case currentMessage of
        None \<Rightarrow> Inr messages
      | Some cur \<Rightarrow> Inr (messages @ [cur]))"
| "parse_loop (line # lines) messages currentMessage =
     (case parseLine line of
        Inl e \<Rightarrow> Inl e
      | Inr (Some parsed) \<Rightarrow>
          (case currentMessage of
             None \<Rightarrow> parse_loop lines messages (Some parsed)
           | Some cur \<Rightarrow> parse_loop lines (messages @ [cur]) (Some parsed))
      | Inr None \<Rightarrow>
          (case currentMessage of
             None \<Rightarrow> parse_loop lines messages None
           | Some cur \<Rightarrow>
               parse_loop lines messages (Some (cur\<lparr>content := content cur @ '' '' @ line\<rparr>))))"

text \<open>\<open>text.split('\n').map(l => l.trim()).filter(l => l)\<close>\<close>

definition lines_of :: "string \<Rightarrow> string list" where
  "lines_of text = filter (\<lambda>l. l \<noteq> []) (map trim (split_nl text))"

definition parse :: "string \<Rightarrow> error + message list" where
  "parse text =
     (if text = [] \<or> trim text = [] then Inr []
      else parse_loop (lines_of text) [] None)"

section \<open>Serializer, detector and examples\<close>


fun detectFormat_loop :: "(string \<times> regex) list \<Rightarrow> string \<Rightarrow> string" where
  "detectFormat_loop [] sample = ''unknown''"
| "detectFormat_loop ((fmt, pat) # ps) sample =
     (if test pat sample then fmt else detectFormat_loop ps sample)"

definition detectFormat :: "string \<Rightarrow> string" where
  "detectFormat text = detectFormat_loop patterns (join_nl (take 5 (split_nl text)))"

text \<open>
  \<open>examples[format] || examples.standard\<close>, for the keys of \<open>examples\<close> itself (the
  names an object inherits, such as \<open>toString\<close>, are not modelled).
\<close>

definition examples :: "(string \<times> string) list" where
  "examples =
     [(''imessage'', ''John Doe\<newline>10:30 AM\<newline>Hey what's up''),
      (''discord'', ''[10:30 AM] John: Hey what's up''),
      (''whatsapp1'', ''10:30 AM - John: Hey what's up''),
      (''whatsapp2'', ''John, 10:30 AM: Hey what's up''),
      (''slack'', ''John 10:30 AM\<newline>Hey what's up''),
      (''telegram'', ''John [10:30]\<newline>Hey what's up''),
      (''sms'', ''John 10:30\<newline>Hey what's up''),
      (''generic1'', ''John (10:30): Hey what's up''),
      (''standard'', ''[10:30 AM] John: Hey what's up'')]"

definition getFormatExample :: "string \<Rightarrow> string" where
  "getFormatExample fmt =
     (case map_of examples fmt of
        Some e \<Rightarrow> if e = [] then ''[10:30 AM] John: Hey what's up'' else e
      | None \<Rightarrow> ''[10:30 AM] John: Hey what's up'')"

section \<open>Properties of the matcher\<close>

text \<open>
  A successful match hands the continuation a state further right in the input, with at
  least the captures it started with.
\<close>

definition reach :: "mstate \<Rightarrow> mstate \<Rightarrow> bool" where
  "reach st st' = ((\<exists>zs. rest st = zs @ rest st') \<and> dom (caps st) \<subseteq> dom (caps st'))"

lemma reach_refl: "reach st st"
  by (simp add: reach_def)

lemma reach_trans: "reach a b \<Longrightarrow> reach b c \<Longrightarrow> reach a c"
  by (auto simp: reach_def)

lemma one_char_reach:
  assumes "one_char p k st = Some res"
  shows "\<exists>x xs. rest st = x # xs \<and> p x \<and> k \<lparr>prev = Some x, rest = xs, caps = caps st\<rparr> = Some res"
  using assms by (auto simp: one_char_def split: list.splits if_splits)

lemma star_greedy_reach:
  "star_greedy p k pv s cp = Some res \<Longrightarrow>
   \<exists>pv' zs s'. s = zs @ s' \<and> list_all p zs \<and> k \<lparr>prev = pv', rest = s', caps = cp\<rparr> = Some res"
proof (induction s arbitrary: pv)
  case Nil
  then show ?case by auto
next
  case (Cons x xs)
  show ?case
  proof (cases "p x \<and> star_greedy p k (Some x) xs cp = Some res")
    case True
    with Cons.IH obtain pv' zs s' where "xs = zs @ s'" "list_all p zs"
      "k \<lparr>prev = pv', rest = s', caps = cp\<rparr> = Some res" by blast
    with True have "x # xs = (x # zs) @ s' \<and> list_all p (x # zs) \<and> k \<lparr>prev = pv', rest = s', caps = cp\<rparr> = Some res"
      by simp
    then show ?thesis by blast
  next
    case False
    with Cons.prems have "k \<lparr>prev = pv, rest = x # xs, caps = cp\<rparr> = Some res"
      by (auto split: if_splits option.splits)
    then have "x # xs = [] @ (x # xs) \<and> list_all p [] \<and> k \<lparr>prev = pv, rest = x # xs, caps = cp\<rparr> = Some res"
      by simp
    then show ?thesis by blast
  qed
qed

lemma star_lazy_reach:
  "star_lazy p k pv s cp = Some res \<Longrightarrow>
   \<exists>pv' zs s'. s = zs @ s' \<and> list_all p zs \<and> k \<lparr>prev = pv', rest = s', caps = cp\<rparr> = Some res"
proof (induction s arbitrary: pv)
  case Nil
  then show ?case by auto
next
  case (Cons x xs)
  show ?case
  proof (cases "k \<lparr>prev = pv, rest = x # xs, caps = cp\<rparr>")
    case (Some r)
    with Cons.prems have "x # xs = [] @ (x # xs) \<and> list_all p [] \<and> k \<lparr>prev = pv, rest = x # xs, caps = cp\<rparr> = Some res"
      by simp
    then show ?thesis by blast
  next
    case None
    with Cons.prems have px: "p x" and "star_lazy p k (Some x) xs cp = Some res"
      by (auto split: if_splits)
    with Cons.IH obtain pv' zs s' where "xs = zs @ s'" "list_all p zs"
      "k \<lparr>prev = pv', rest = s', caps = cp\<rparr> = Some res" by blast
    with px have "x # xs = (x # zs) @ s' \<and> list_all p (x # zs) \<and> k \<lparr>prev = pv', rest = s', caps = cp\<rparr> = Some res"
      by simp
    then show ?thesis by blast
  qed
qed

lemma star_reach:
  assumes "star g p k st = Some res"
  shows "\<exists>st'. k st' = Some res \<and> reach st st'"
proof -
  from assms obtain pv' zs s' where "rest st = zs @ s'" "k \<lparr>prev = pv', rest = s', caps = caps st\<rparr> = Some res"
    unfolding star_def by (cases g) (auto dest: star_greedy_reach star_lazy_reach)
  then have "k \<lparr>prev = pv', rest = s', caps = caps st\<rparr> = Some res \<and> reach st \<lparr>prev = pv', rest = s', caps = caps st\<rparr>"
    by (simp add: reach_def)
  then show ?thesis by blast
qed

lemma one_char_reach_state:
  assumes "one_char p k st = Some res"
  shows "\<exists>st'. k st' = Some res \<and> reach st st'"
proof -
  from one_char_reach [OF assms] obtain x xs where
    "rest st = x # xs" "k \<lparr>prev = Some x, rest = xs, caps = caps st\<rparr> = Some res" by blast
  then have "k \<lparr>prev = Some x, rest = xs, caps = caps st\<rparr> = Some res \<and> reach st \<lparr>prev = Some x, rest = xs, caps = caps st\<rparr>"
    by (simp add: reach_def)
  then show ?thesis by blast
qed

lemma rmatch_reach:
  "rmatch f r k st = Some res \<Longrightarrow> \<exists>st'. k st' = Some res \<and> reach st st'"
proof (induction r arbitrary: k st)
  case Eps
  then show ?case using reach_refl by auto
next
  case (Lit c)
  then show ?case by (simp add: one_char_reach_state)
next
  case (One cs)
  then show ?case by (simp add: one_char_reach_state)
next
  case (Star cs)
  then show ?case by (simp add: star_reach)
next
  case (Plus cs)
  then show ?case by (auto dest!: one_char_reach_state star_reach intro: reach_trans)
next
  case (PlusLazy cs)
  then show ?case by (auto dest!: one_char_reach_state star_reach intro: reach_trans)
next
  case (Opt a)
  show ?case
  proof (cases "rmatch f a (\<lambda>st'. if length (rest st') = length (rest st) then None else k st') st")
    case None
    with Opt.prems have "k st = Some res" by simp
    then show ?thesis using reach_refl by blast
  next
    case (Some r)
    with Opt.prems have "rmatch f a (\<lambda>st'. if length (rest st') = length (rest st) then None else k st') st = Some res"
      by simp
    from Opt.IH [OF this] show ?thesis by (auto split: if_splits)
  qed
next
  case (Alt a b)
  then show ?case by (auto split: option.splits)
next
  case (Seq a b)
  from Seq.prems have "rmatch f a (rmatch f b k) st = Some res" by simp
  from Seq.IH(1) [OF this] obtain st1 where "rmatch f b k st1 = Some res" "reach st st1" by blast
  with Seq.IH(2) show ?case by (blast intro: reach_trans)
next
  case (Grp i a)
  from Grp.prems have "rmatch f a
     (\<lambda>st'. k (st'\<lparr>caps := (caps st')(i \<mapsto> take (length (rest st) - length (rest st')) (rest st))\<rparr>)) st = Some res"
    by simp
  from Grp.IH [OF this] obtain st1 where
    k: "k (st1\<lparr>caps := (caps st1)(i \<mapsto> take (length (rest st) - length (rest st1)) (rest st))\<rparr>) = Some res"
    and r: "reach st st1" by blast
  from r have "reach st (st1\<lparr>caps := (caps st1)(i \<mapsto> take (length (rest st) - length (rest st1)) (rest st))\<rparr>)"
    by (auto simp: reach_def)
  with k show ?case by blast
next
  case Bol
  then show ?case using reach_refl by (auto split: option.splits if_splits)
next
  case Eol
  then show ?case using reach_refl by (auto split: list.splits if_splits)
qed

subsection \<open>Canonical forms\<close>

lemma upper_char_newline [simp]: "upper_char x = CHR 0x0A \<longleftrightarrow> x = CHR 0x0A"
  by (auto simp: upper_char_def split: option.splits if_splits)

lemma upper_char_of_newline [simp]: "upper_char (CHR 0x0A) = CHR 0x0A"
  by (simp add: upper_char_def)

lemma upper_char_upper_A: "upper_char x = CHR ''A'' \<longleftrightarrow> x = CHR ''a'' \<or> x = CHR ''A''"
  by (auto simp: upper_char_def split: option.splits if_splits)

lemma upper_char_upper_M: "upper_char x = CHR ''M'' \<longleftrightarrow> x = CHR ''m'' \<or> x = CHR ''M''"
  by (auto simp: upper_char_def split: option.splits if_splits)

lemma upper_char_upper_P: "upper_char x = CHR ''P'' \<longleftrightarrow> x = CHR ''p'' \<or> x = CHR ''P''"
  by (auto simp: upper_char_def split: option.splits if_splits)

subsection \<open>Characters a match must consume\<close>

fun needs :: "char \<Rightarrow> re \<Rightarrow> bool" where
  "needs c (Lit d) = (d = c)"
| "needs c (Seq a b) = (needs c a \<or> needs c b)"
| "needs c (Alt a b) = (needs c a \<and> needs c b)"
| "needs c (Grp i a) = needs c a"
| "needs c r = False"

lemma reach_set: "reach st st' \<Longrightarrow> set (rest st') \<subseteq> set (rest st)"
  by (auto simp: reach_def)

lemma needs_consumes:
  "needs c r \<Longrightarrow> rmatch f r k st = Some res \<Longrightarrow>
   \<exists>x\<in>set (rest st). canonicalize f x = canonicalize f c"
proof (induction r arbitrary: k st)
  case (Lit d)
  then show ?case by (auto dest!: one_char_reach)
next
  case (Alt a b)
  then show ?case by (auto split: option.splits)
next
  case (Seq a b)
  from Seq.prems(2) have m: "rmatch f a (rmatch f b k) st = Some res" by simp
  show ?case
  proof (cases "needs c a")
    case True
    from Seq.IH(1) [OF True m] show ?thesis .
  next
    case False
    with Seq.prems(1) have nb: "needs c b" by simp
    from rmatch_reach [OF m] obtain st1 where "rmatch f b k st1 = Some res" "reach st st1" by blast
    with Seq.IH(2) [OF nb] reach_set show ?thesis by blast
  qed
next
  case (Grp i a)
  from Grp.prems(2) have "rmatch f a
     (\<lambda>st'. k (st'\<lparr>caps := (caps st')(i \<mapsto> take (length (rest st) - length (rest st')) (rest st))\<rparr>)) st = Some res"
    by simp
  with Grp.IH Grp.prems(1) show ?case by simp
qed simp_all

lemma needs_exec_from_None:
  assumes "needs c (pattern r)"
  shows "\<forall>x\<in>set s. canonicalize (flag r) x \<noteq> canonicalize (flag r) c \<Longrightarrow> exec_from r pv s = None"
proof (induction s arbitrary: pv)
  case Nil
  have "match_here r pv [] = None"
  proof (cases "match_here r pv []")
    case (Some st)
    with needs_consumes [OF assms] show ?thesis unfolding match_here_def by fastforce
  qed simp
  then show ?case by simp
next
  case (Cons x xs)
  have "match_here r pv (x # xs) = None"
  proof (cases "match_here r pv (x # xs)")
    case (Some st)
    then have "\<exists>y\<in>set (x # xs). canonicalize (flag r) y = canonicalize (flag r) c"
      unfolding match_here_def using needs_consumes [OF assms] by fastforce
    with Cons.prems show ?thesis by blast
  qed simp
  moreover from Cons have "exec_from r (Some x) xs = None" by simp
  ultimately show ?case by simp
qed

lemma needs_newline:
  "needs (CHR 0x0A) (pattern imessage_re)" "needs (CHR 0x0A) (pattern slack_re)"
  "needs (CHR 0x0A) (pattern telegram_re)" "needs (CHR 0x0A) (pattern sms_re)"
  by (simp_all add: imessage_re_def slack_re_def telegram_re_def sms_re_def)

lemma multiline_rules_need_newline:
  assumes "CHR 0x0A \<notin> set s"
  shows "exec imessage_re s = None" "exec slack_re s = None"
    "exec telegram_re s = None" "exec sms_re s = None"
proof -
  have "\<forall>x\<in>set s. canonicalize flags_im x \<noteq> canonicalize flags_im (CHR 0x0A)"
    using assms by (auto simp: canonicalize_def flags_im_def)
  then show "exec imessage_re s = None" "exec slack_re s = None"
    "exec telegram_re s = None" "exec sms_re s = None"
    unfolding exec_def
    using needs_exec_from_None [OF needs_newline(1)] needs_exec_from_None [OF needs_newline(2)]
      needs_exec_from_None [OF needs_newline(3)] needs_exec_from_None [OF needs_newline(4)]
    by (simp_all add: imessage_re_def slack_re_def telegram_re_def sms_re_def)
qed

subsection \<open>Groups a match sets\<close>

fun sets_group :: "nat \<Rightarrow> re \<Rightarrow> bool" where
  "sets_group i (Grp j a) = (i = j \<or> sets_group i a)"
| "sets_group i (Seq a b) = (sets_group i a \<or> sets_group i b)"
| "sets_group i (Alt a b) = (sets_group i a \<and> sets_group i b)"
| "sets_group i r = False"

lemma reach_dom: "reach st st' \<Longrightarrow> i \<in> dom (caps st) \<Longrightarrow> i \<in> dom (caps st')"
  by (auto simp: reach_def)

lemma sets_group_sets:
  "sets_group i r \<Longrightarrow> rmatch f r k st = Some res \<Longrightarrow>
   \<exists>st'. k st' = Some res \<and> reach st st' \<and> i \<in> dom (caps st')"
proof (induction r arbitrary: k st)
  case (Alt a b)
  then show ?case by (auto split: option.splits)
next
  case (Seq a b)
  from Seq.prems(2) have m: "rmatch f a (rmatch f b k) st = Some res" by simp
  show ?case
  proof (cases "sets_group i a")
    case True
    from Seq.IH(1) [OF True m] obtain st1 where
      1: "rmatch f b k st1 = Some res" "reach st st1" "i \<in> dom (caps st1)" by blast
    from rmatch_reach [OF 1(1)] obtain st2 where 2: "k st2 = Some res" "reach st1 st2" by blast
    from 1 2 have "k st2 = Some res \<and> reach st st2 \<and> i \<in> dom (caps st2)"
      using reach_trans reach_dom by blast
    then show ?thesis by blast
  next
    case False
    with Seq.prems(1) have db: "sets_group i b" by simp
    from rmatch_reach [OF m] obtain st1 where 1: "rmatch f b k st1 = Some res" "reach st st1" by blast
    from Seq.IH(2) [OF db 1(1)] obtain st2 where
      "k st2 = Some res" "reach st1 st2" "i \<in> dom (caps st2)" by blast
    with 1 have "k st2 = Some res \<and> reach st st2 \<and> i \<in> dom (caps st2)"
      using reach_trans by blast
    then show ?thesis by blast
  qed
next
  case (Grp j a)
  let ?k = "\<lambda>st'. k (st'\<lparr>caps := (caps st')(j \<mapsto> take (length (rest st) - length (rest st')) (rest st))\<rparr>)"
  from Grp.prems(2) have m: "rmatch f a ?k st = Some res" by simp
  show ?case
  proof (cases "i = j")
    case True
    from rmatch_reach [OF m] obtain st1 where 1: "?k st1 = Some res" "reach st st1" by blast
    let ?st = "st1\<lparr>caps := (caps st1)(j \<mapsto> take (length (rest st) - length (rest st1)) (rest st))\<rparr>"
    from 1 True have "k ?st = Some res \<and> reach st ?st \<and> i \<in> dom (caps ?st)"
      by (auto simp: reach_def)
    then show ?thesis by blast
  next
    case False
    with Grp.prems(1) have "sets_group i a" by simp
    from Grp.IH [OF this m] obtain st1 where 1: "?k st1 = Some res" "reach st st1" "i \<in> dom (caps st1)"
      by blast
    let ?st = "st1\<lparr>caps := (caps st1)(j \<mapsto> take (length (rest st) - length (rest st1)) (rest st))\<rparr>"
    from 1 have "k ?st = Some res \<and> reach st ?st \<and> i \<in> dom (caps ?st)"
      by (auto simp: reach_def)
    then show ?thesis by blast
  qed
qed simp_all

lemma sets_group_match_here:
  "sets_group i (pattern r) \<Longrightarrow> match_here r pv s = Some st \<Longrightarrow> caps st i \<noteq> None"
  unfolding match_here_def by (drule sets_group_sets) auto

lemma sets_group_exec_from:
  "sets_group i (pattern r) \<Longrightarrow> exec_from r pv s = Some fd \<Longrightarrow> groups fd i \<noteq> None"
proof (induction s arbitrary: pv fd)
  case Nil
  then show ?case by (auto split: option.splits dest: sets_group_match_here)
next
  case (Cons x xs)
  show ?case
  proof (cases "match_here r pv (x # xs)")
    case (Some st)
    with Cons.prems show ?thesis by (auto dest: sets_group_match_here)
  next
    case None
    with Cons.prems obtain fd' where "exec_from r (Some x) xs = Some fd'" "groups fd = groups fd'"
      by (auto split: option.splits)
    with Cons.IH [OF Cons.prems(1)] show ?thesis by simp
  qed
qed

subsection \<open>The line classifier\<close>


definition tags :: "string list" where
  "tags = [''imessage'', ''discord'', ''whatsapp1'', ''whatsapp2'', ''slack'', ''generic1'',
           ''telegram'', ''sms'', ''standard'']"

lemma build_message_format [simp]: "format (build_message fmt t u c) = fmt"
  by (simp add: build_message_def)

lemma if_chain_Inr:
  "(if A then Inr x1 else if B then Inr x2 else if C then Inr x3 else if D then Inr x4
    else if E then Inr x5 else Inl e) = Inr m \<Longrightarrow> m = x1 \<or> m = x2 \<or> m = x3 \<or> m = x4 \<or> m = x5"
  by (auto split: if_splits)

lemma on_match_Inr:
  assumes "on_match fmt g = Inr msg"
  shows "\<exists>g1 g2 g3. g 1 = Some g1 \<and> g 2 = Some g2 \<and> g 3 = Some g3 \<and>
           (msg = build_message fmt (trim g1) (trim g2) (trim g3) \<or>
            msg = build_message fmt (trim g2) (trim g1) (trim g3))"
proof -
  from assms obtain g1 g2 g3 where g: "g 1 = Some g1" "g 2 = Some g2" "g 3 = Some g3"
    unfolding on_match_def trimmed_group_def
    by (cases "g 1"; cases "g 2"; cases "g 3") simp_all
  from assms have "msg = build_message fmt (trim g1) (trim g2) (trim g3) \<or>
            msg = build_message fmt (trim g2) (trim g1) (trim g3)"
    unfolding on_match_def trimmed_group_def g option.case sum.case prod.case
    by (drule_tac if_chain_Inr) blast
  with g show ?thesis by blast
qed

lemma on_match_format: "on_match fmt g = Inr msg \<Longrightarrow> format msg = fmt"
  by (drule on_match_Inr) auto


lemma on_match_total:
  assumes "fmt \<in> set tags" "g 1 \<noteq> None" "g 2 \<noteq> None" "g 3 \<noteq> None"
  shows "\<exists>msg. on_match fmt g = Inr msg"
proof -
  from assms(2-4) obtain a b c where g: "trimmed_group g 1 = Inr a" "trimmed_group g 2 = Inr b"
    "trimmed_group g 3 = Inr c"
    by (auto simp: trimmed_group_def)
  from assms(1) consider "fmt = ''imessage''" | "fmt = ''discord''" | "fmt = ''whatsapp1''"
    | "fmt = ''whatsapp2''" | "fmt = ''slack''" | "fmt = ''generic1''" | "fmt = ''telegram''"
    | "fmt = ''sms''" | "fmt = ''standard''"
    unfolding tags_def by fastforce
  then show ?thesis
    by cases (simp_all add: on_match_def g del: One_nat_def)
qed

lemma parseLine_loop_total:
  assumes "\<forall>(fmt, pat)\<in>set ps. fmt \<in> set tags \<and> sets_group 1 (pattern pat) \<and>
             sets_group 2 (pattern pat) \<and> sets_group 3 (pattern pat)"
  shows "\<exists>r. parseLine_loop ps line = Inr r"
  using assms
proof (induction ps)
  case Nil
  then show ?case by simp
next
  case (Cons p ps)
  obtain fmt pat where p: "p = (fmt, pat)" by (cases p)
  show ?case
  proof (cases "exec pat line")
    case None
    with Cons p show ?thesis by simp
  next
    case (Some fd)
    with Cons.prems p have "groups fd 1 \<noteq> None" "groups fd 2 \<noteq> None" "groups fd 3 \<noteq> None"
      unfolding exec_def by (auto dest: sets_group_exec_from)
    moreover from Cons.prems p have "fmt \<in> set tags" by simp
    ultimately obtain msg where "on_match fmt (groups fd) = Inr msg"
      using on_match_total by blast
    with Some p show ?thesis by simp
  qed
qed

lemma patterns_set_groups:
  "\<forall>(fmt, pat)\<in>set patterns. fmt \<in> set tags \<and> sets_group 1 (pattern pat) \<and>
     sets_group 2 (pattern pat) \<and> sets_group 3 (pattern pat)"
  by (simp add: patterns_def tags_def imessage_re_def discord_re_def whatsapp1_re_def
      whatsapp2_re_def slack_re_def generic1_re_def telegram_re_def sms_re_def standard_re_def)

lemma parseLine_total: "\<exists>r. parseLine line = Inr r"
  unfolding parseLine_def using parseLine_loop_total [OF patterns_set_groups] .

lemma parseLine_loop_Some:
  "parseLine_loop ps line = Inr (Some msg) \<Longrightarrow>
   \<exists>i<length ps. format msg = fst (ps ! i) \<and> test (snd (ps ! i)) line \<and>
      (\<forall>j<i. \<not> test (snd (ps ! j)) line)"
proof (induction ps)
  case Nil
  then show ?case by simp
next
  case (Cons p ps)
  obtain fmt pat where p: "p = (fmt, pat)" by (cases p)
  show ?case
  proof (cases "exec pat line")
    case None
    with Cons p obtain i where i: "i < length ps" "format msg = fst (ps ! i)"
      "test (snd (ps ! i)) line" "\<forall>j<i. \<not> test (snd (ps ! j)) line" by auto
    have "\<forall>j<Suc i. \<not> test (snd ((p # ps) ! j)) line"
    proof (intro allI impI)
      fix j assume "j < Suc i"
      with i(4) None p show "\<not> test (snd ((p # ps) ! j)) line"
        by (cases j) (auto simp: test_def)
    qed
    with i have "Suc i < length (p # ps) \<and> format msg = fst ((p # ps) ! Suc i) \<and>
      test (snd ((p # ps) ! Suc i)) line \<and> (\<forall>j<Suc i. \<not> test (snd ((p # ps) ! j)) line)"
      by simp
    then show ?thesis by blast
  next
    case (Some fd)
    with Cons.prems p have "on_match fmt (groups fd) = Inr msg"
      by (auto split: sum.splits)
    then have "format msg = fmt" by (rule on_match_format)
    with Some p have "0 < length (p # ps) \<and> format msg = fst ((p # ps) ! 0) \<and>
      test (snd ((p # ps) ! 0)) line \<and> (\<forall>j<0. \<not> test (snd ((p # ps) ! j)) line)"
      by (simp add: test_def)
    then show ?thesis by blast
  qed
qed

lemma parseLine_loop_None:
  "parseLine_loop ps line = Inr None \<longleftrightarrow> (\<forall>i<length ps. \<not> test (snd (ps ! i)) line)"
proof (induction ps)
  case Nil
  then show ?case by simp
next
  case (Cons p ps)
  obtain fmt pat where p: "p = (fmt, pat)" by (cases p)
  show ?case
  proof (cases "exec pat line")
    case None
    have "(\<forall>i<length (p # ps). \<not> test (snd ((p # ps) ! i)) line) \<longleftrightarrow>
          (\<forall>i<length ps. \<not> test (snd (ps ! i)) line)"
      using None p by (auto simp: test_def less_Suc_eq_0_disj)
    with Cons None p show ?thesis by simp
  next
    case (Some fd)
    then have "test (snd ((p # ps) ! 0)) line" using p by (simp add: test_def)
    then have "\<not> (\<forall>i<length (p # ps). \<not> test (snd ((p # ps) ! i)) line)" by auto
    moreover from Some p have "parseLine_loop (p # ps) line \<noteq> Inr None"
      by (auto split: sum.splits)
    ultimately show ?thesis by blast
  qed
qed

lemma standard_is_discord: "standard_re = discord_re"
  by (simp add: standard_re_def discord_re_def)

subsection \<open>Lines\<close>

lemma split_nl_not_Nil [simp]: "split_nl s \<noteq> []"
  by (induction s) (auto split: list.splits)

lemma split_nl_no_newline: "l \<in> set (split_nl s) \<Longrightarrow> CHR 0x0A \<notin> set l"
proof (induction s arbitrary: l)
  case Nil
  then show ?case by simp
next
  case (Cons c cs)
  show ?case
  proof (cases "c = CHR 0x0A")
    case True
    with Cons show ?thesis by auto
  next
    case False
    obtain h t where ht: "split_nl cs = h # t" by (cases "split_nl cs") simp_all
    with Cons.prems False have "l = c # h \<or> l \<in> set t" by simp
    with Cons.IH ht False show ?thesis by auto
  qed
qed

lemma set_trim: "set (trim s) \<subseteq> set s"
proof -
  have "set (trim s) \<subseteq> set (rev (dropWhile is_space s))"
    unfolding trim_def using set_dropWhileD by fastforce
  also have "\<dots> \<subseteq> set s" using set_dropWhileD by fastforce
  finally show ?thesis .
qed

lemma lines_of_no_newline: "l \<in> set (lines_of text) \<Longrightarrow> CHR 0x0A \<notin> set l"
  unfolding lines_of_def using split_nl_no_newline set_trim by fastforce

lemma trim_Nil_iff: "trim s = [] \<longleftrightarrow> (\<forall>c\<in>set s. is_space c)"
proof
  assume "trim s = []"
  then have a: "\<forall>x\<in>set (dropWhile is_space s). is_space x"
    by (simp add: trim_def dropWhile_eq_Nil_conv)
  have "dropWhile is_space s = []"
  proof (rule ccontr)
    assume n: "dropWhile is_space s \<noteq> []"
    then have "\<not> is_space (hd (dropWhile is_space s))" by (rule hd_dropWhile)
    with a n show False by simp
  qed
  then show "\<forall>c\<in>set s. is_space c" by (simp add: dropWhile_eq_Nil_conv)
next
  assume "\<forall>c\<in>set s. is_space c"
  then have d: "dropWhile is_space s = []" by (simp add: dropWhile_eq_Nil_conv)
  show "trim s = []" unfolding trim_def d by simp
qed

subsection \<open>The accumulator\<close>

lemma parse_loop_total: "\<exists>out. parse_loop ls msgs cur = Inr out"
proof (induction ls arbitrary: msgs cur)
  case Nil
  then show ?case by (cases cur) simp_all
next
  case (Cons l ls)
  obtain r where r: "parseLine l = Inr r" using parseLine_total by blast
  show ?case
  proof (cases r)
    case None
    with r Cons show ?thesis by (cases cur) simp_all
  next
    case (Some p)
    with r Cons show ?thesis by (cases cur) simp_all
  qed
qed

lemma parse_loop_formats:
  assumes "\<forall>l\<in>set ls. \<forall>p. parseLine l = Inr (Some p) \<longrightarrow> Q (format p)"
  shows "parse_loop ls msgs cur = Inr out \<Longrightarrow> \<forall>m\<in>set msgs. Q (format m) \<Longrightarrow>
         \<forall>c. cur = Some c \<longrightarrow> Q (format c) \<Longrightarrow> \<forall>m\<in>set out. Q (format m)"
  using assms
proof (induction ls arbitrary: msgs cur)
  case Nil
  then show ?case by (cases cur) auto
next
  case (Cons l ls)
  obtain r where r: "parseLine l = Inr r" using parseLine_total by blast
  from Cons.prems(4) have rest: "\<forall>l\<in>set ls. \<forall>p. parseLine l = Inr (Some p) \<longrightarrow> Q (format p)"
    by simp
  show ?case
  proof (cases r)
    case None
    show ?thesis
    proof (cases cur)
      case None': None
      with None r Cons.prems(1) have "parse_loop ls msgs None = Inr out" by simp
      from Cons.IH [OF this Cons.prems(2) _ rest] show ?thesis by simp
    next
      case (Some c)
      with None r Cons.prems(1) have
        "parse_loop ls msgs (Some (c\<lparr>content := content c @ '' '' @ l\<rparr>)) = Inr out" by simp
      from Cons.IH [OF this Cons.prems(2) _ rest] Cons.prems(3) Some show ?thesis by simp
    qed
  next
    case (Some p)
    with r Cons.prems(4) have qp: "Q (format p)" by simp
    show ?thesis
    proof (cases cur)
      case None
      with Some r Cons.prems(1) have "parse_loop ls msgs (Some p) = Inr out" by simp
      from Cons.IH [OF this Cons.prems(2) _ rest] qp show ?thesis by simp
    next
      case c: (Some c)
      with Some r Cons.prems(1) have 1: "parse_loop ls (msgs @ [c]) (Some p) = Inr out" by simp
      from Cons.prems(2,3) c have 2: "\<forall>m\<in>set (msgs @ [c]). Q (format m)" by simp
      from Cons.IH [OF 1 2 _ rest] qp show ?thesis by simp
    qed
  qed
qed

lemma parse_loop_no_match:
  "\<forall>l\<in>set ls. parseLine l = Inr None \<Longrightarrow> parse_loop ls msgs None = Inr msgs"
  by (induction ls) simp_all

lemma patterns_index:
  assumes "i < length patterns"
  obtains "i = 0" | "i = 1" | "i = 2" | "i = 3" | "i = 4" | "i = 5" | "i = 6" | "i = 7" | "i = 8"
  using assms unfolding patterns_def by (simp add: less_Suc_eq) linarith

lemma patterns_nth:
  "patterns ! 0 = (''imessage'', imessage_re)" "patterns ! Suc 0 = (''discord'', discord_re)"
  "patterns ! 2 = (''whatsapp1'', whatsapp1_re)" "patterns ! 3 = (''whatsapp2'', whatsapp2_re)"
  "patterns ! 4 = (''slack'', slack_re)" "patterns ! 5 = (''generic1'', generic1_re)"
  "patterns ! 6 = (''telegram'', telegram_re)" "patterns ! 7 = (''sms'', sms_re)"
  "patterns ! 8 = (''standard'', standard_re)"
  by (simp_all add: patterns_def)

lemma parseLine_not_standard:
  assumes "parseLine line = Inr (Some msg)"
  shows "format msg \<noteq> ''standard''"
proof
  assume s: "format msg = ''standard''"
  from assms obtain i where i: "i < length patterns" "format msg = fst (patterns ! i)"
    "test (snd (patterns ! i)) line" "\<forall>j<i. \<not> test (snd (patterns ! j)) line"
    unfolding parseLine_def by (blast dest: parseLine_loop_Some)
  from i(1) show False
  proof (cases rule: patterns_index)
    case 9
    with i(3) have "test standard_re line" by (simp add: patterns_nth)
    moreover from 9 i(4) have "\<not> test (snd (patterns ! Suc 0)) line" by simp
    ultimately show False by (simp add: patterns_nth standard_is_discord)
  qed (use s i(2) in \<open>simp_all add: patterns_nth\<close>)
qed

lemma parseLine_single_line_format:
  assumes "parseLine line = Inr (Some msg)" "CHR 0x0A \<notin> set line"
  shows "format msg \<in> {''discord'', ''whatsapp1'', ''whatsapp2'', ''generic1''}"
proof -
  from assms obtain i where i: "i < length patterns" "format msg = fst (patterns ! i)"
    "test (snd (patterns ! i)) line"
    unfolding parseLine_def by (blast dest: parseLine_loop_Some)
  from parseLine_not_standard [OF assms(1)] have ns: "format msg \<noteq> ''standard''" .
  note nl = multiline_rules_need_newline [OF assms(2)]
  from i(1) show ?thesis
  proof (cases rule: patterns_index)
    case 1 with i(3) nl(1) show ?thesis by (simp add: patterns_nth test_def)
  next
    case 5 with i(3) nl(2) show ?thesis by (simp add: patterns_nth test_def)
  next
    case 7 with i(3) nl(3) show ?thesis by (simp add: patterns_nth test_def)
  next
    case 8 with i(3) nl(4) show ?thesis by (simp add: patterns_nth test_def)
  next
    case 9 with i(2) ns show ?thesis by (simp add: patterns_nth)
  qed (use i(2) in \<open>simp_all add: patterns_nth\<close>)
qed

subsection \<open>Lines without the punctuation of any rule\<close>

lemma upper_char_punct:
  "upper_char x = CHR ''['' \<longleftrightarrow> x = CHR ''[''"
  "upper_char x = CHR ''-'' \<longleftrightarrow> x = CHR ''-''"
  "upper_char x = CHR '','' \<longleftrightarrow> x = CHR '',''"
  "upper_char x = CHR ''('' \<longleftrightarrow> x = CHR ''(''"
  by (auto simp: upper_char_def split: option.splits if_splits)

lemma upper_char_punct_val:
  "upper_char (CHR ''['') = CHR ''[''" "upper_char (CHR ''-'') = CHR ''-''"
  "upper_char (CHR '','') = CHR '',''" "upper_char (CHR ''('') = CHR ''(''"
  by (simp_all add: upper_char_def)

lemma exec_None_without:
  assumes "needs c (pattern r)" "flag r = flags_i \<or> flag r = flags_im"
    "c \<in> set [CHR 0x0A, CHR ''['', CHR ''-'', CHR '','', CHR ''('']" "c \<notin> set s"
  shows "exec r s = None"
proof -
  from assms(3) have "upper_char x = upper_char c \<longleftrightarrow> x = c" for x
    by (auto simp: upper_char_punct upper_char_punct_val)
  with assms(2,4) have "\<forall>x\<in>set s. canonicalize (flag r) x \<noteq> canonicalize (flag r) c"
    by (auto simp: canonicalize_def flags_i_def flags_im_def)
  from needs_exec_from_None [OF assms(1) this] show ?thesis by (simp add: exec_def)
qed

lemma parseLine_without_punctuation:
  assumes "CHR 0x0A \<notin> set l" "CHR ''['' \<notin> set l" "CHR ''-'' \<notin> set l" "CHR '','' \<notin> set l"
    "CHR ''('' \<notin> set l"
  shows "parseLine l = Inr None"
proof -
  have "exec imessage_re l = None"
    by (rule exec_None_without [OF _ _ _ assms(1)]) (simp_all add: imessage_re_def)
  moreover have "exec discord_re l = None"
    by (rule exec_None_without [OF _ _ _ assms(2)]) (simp_all add: discord_re_def)
  moreover have "exec whatsapp1_re l = None"
    by (rule exec_None_without [OF _ _ _ assms(3)]) (simp_all add: whatsapp1_re_def time_part_def)
  moreover have "exec whatsapp2_re l = None"
    by (rule exec_None_without [OF _ _ _ assms(4)]) (simp_all add: whatsapp2_re_def)
  moreover have "exec slack_re l = None"
    by (rule exec_None_without [OF _ _ _ assms(1)]) (simp_all add: slack_re_def)
  moreover have "exec generic1_re l = None"
    by (rule exec_None_without [OF _ _ _ assms(5)]) (simp_all add: generic1_re_def)
  moreover have "exec telegram_re l = None"
    by (rule exec_None_without [OF _ _ _ assms(2)]) (simp_all add: telegram_re_def)
  moreover have "exec sms_re l = None"
    by (rule exec_None_without [OF _ _ _ assms(1)]) (simp_all add: sms_re_def)
  ultimately show ?thesis
    by (simp add: parseLine_def patterns_def standard_is_discord)
qed

subsection \<open>The lines of the examples\<close>

lemma parseLine_discord_example:
  "parseLine ''[10:30 AM] John: Hey what's up'' =
     Inr (Some \<lparr>time = ''10:30 AM'', user = ''John'', content = ''Hey what's up'', format = ''discord''\<rparr>)"
  by code_simp

lemma parseLine_whatsapp1_example:
  "parseLine ''10:30 AM - John: Hey what's up'' =
     Inr (Some \<lparr>time = ''10:30 AM'', user = ''John'', content = ''Hey what's up'', format = ''whatsapp1''\<rparr>)"
  by code_simp

lemma parseLine_whatsapp2_example:
  "parseLine ''John, 10:30 AM: Hey what's up'' =
     Inr (Some \<lparr>time = ''10:30 AM'', user = ''John'', content = ''Hey what's up'', format = ''whatsapp2''\<rparr>)"
  by code_simp

lemma parseLine_generic1_example:
  "parseLine ''John (10:30): Hey what's up'' =
     Inr (Some \<lparr>time = ''10:30'', user = ''John'', content = ''Hey what's up'', format = ''generic1''\<rparr>)"
  by code_simp

lemma parseLine_second_example:
  "parseLine ''[10:31 AM] Jane: Not much, you?'' =
     Inr (Some \<lparr>time = ''10:31 AM'', user = ''Jane'', content = ''Not much, you?'', format = ''discord''\<rparr>)"
  by code_simp

lemma parseLine_telegram_header: "parseLine ''John [10:30]'' = Inr None"
  by code_simp

lemma parseLine_plain_lines:
  "parseLine ''John Doe'' = Inr None" "parseLine ''10:30 AM'' = Inr None"
  "parseLine ''Hey what's up'' = Inr None" "parseLine ''John 10:30 AM'' = Inr None"
  "parseLine ''John 10:30'' = Inr None" "parseLine ''still talking'' = Inr None"
  by (rule parseLine_without_punctuation; simp)+

lemmas parse_eval = getFormatExample_def examples_def parse_def lines_of_def trim_def is_space_def

section \<open>The normalizer on the examples of the specification\<close>

text \<open>
  C9: \<open>normalizeTime("10:30am")\<close> is \<open>"10:30 AM"\<close>, \<open>normalizeTime("10:30 AM")\<close> is
  unchanged, and \<open>cleanUsername("\"John\"  Doe: ")\<close> is \<open>"John Doe"\<close>.
\<close>

theorem normalization_examples:
  "normalizeTime ''10:30am'' = ''10:30 AM'' \<and>
   normalizeTime ''10:30 AM'' = ''10:30 AM'' \<and>
   cleanUsername ''\"John\"  Doe: '' = ''John Doe''"
proof -
  have "normalizeTime ''10:30am'' = ''10:30 AM''" by code_simp
  moreover have "normalizeTime ''10:30 AM'' = ''10:30 AM''" by code_simp
  moreover have "cleanUsername ''\"John\"  Doe: '' = ''John Doe''" by code_simp
  ultimately show ?thesis by blast
qed

section \<open>A user that ends in a space\<close>

text \<open>
  C10: some input makes \<open>parse\<close> return a message whose user ends with white space. The
  colons at the end of a name are removed after the name was trimmed, so the sender
  \<open>a :\<close> of the line \<open>a :, 10:30: hi\<close>, which the rule whatsapp2 matches, is cleaned
  to \<open>a\<close> followed by a space.
\<close>

theorem user_may_end_in_space:
  "cleanUsername ''a :'' = ''a '' \<and>
   parse ''a :, 10:30: hi'' =
     Inr [\<lparr>time = ''10:30'', user = ''a '', content = ''hi'', format = ''whatsapp2''\<rparr>] \<and>
   (\<exists>text ms m. parse text = Inr ms \<and> m \<in> set ms \<and> user m \<noteq> [] \<and> is_space (last (user m)))"
proof -
  have c: "cleanUsername ''a :'' = ''a ''" by code_simp
  have p: "parse ''a :, 10:30: hi'' =
     Inr [\<lparr>time = ''10:30'', user = ''a '', content = ''hi'', format = ''whatsapp2''\<rparr>]"
    by code_simp
  have "parse ''a :, 10:30: hi'' =
          Inr [\<lparr>time = ''10:30'', user = ''a '', content = ''hi'', format = ''whatsapp2''\<rparr>] \<and>
        \<lparr>time = ''10:30'', user = ''a '', content = ''hi'', format = ''whatsapp2''\<rparr>
          \<in> set [\<lparr>time = ''10:30'', user = ''a '', content = ''hi'', format = ''whatsapp2''\<rparr>] \<and>
        user \<lparr>time = ''10:30'', user = ''a '', content = ''hi'', format = ''whatsapp2''\<rparr> \<noteq> [] \<and>
        is_space (last (user \<lparr>time = ''10:30'', user = ''a '', content = ''hi'', format = ''whatsapp2''\<rparr>))"
    using p by (simp add: is_space_def)
  then have "\<exists>text ms m. parse text = Inr ms \<and> m \<in> set ms \<and> user m \<noteq> [] \<and> is_space (last (user m))"
    by blast
  with c p show ?thesis by blast
qed

section \<open>The examples of the rules\<close>

text \<open>
  C1, as the code has it: the example of each single-line rule (discord, whatsapp1,
  whatsapp2, generic1) parses to exactly one message that carries the tag of the rule
  and the sender, time and body of the example; the example of the rule standard parses
  to that one message too, under the tag discord; and the two bracketed lines of the
  specification parse to exactly two messages.
\<close>

theorem single_line_examples_parse:
  "parse (getFormatExample ''discord'') =
     Inr [\<lparr>time = ''10:30 AM'', user = ''John'', content = ''Hey what's up'', format = ''discord''\<rparr>] \<and>
   parse (getFormatExample ''whatsapp1'') =
     Inr [\<lparr>time = ''10:30 AM'', user = ''John'', content = ''Hey what's up'', format = ''whatsapp1''\<rparr>] \<and>
   parse (getFormatExample ''whatsapp2'') =
     Inr [\<lparr>time = ''10:30 AM'', user = ''John'', content = ''Hey what's up'', format = ''whatsapp2''\<rparr>] \<and>
   parse (getFormatExample ''generic1'') =
     Inr [\<lparr>time = ''10:30'', user = ''John'', content = ''Hey what's up'', format = ''generic1''\<rparr>] \<and>
   parse (getFormatExample ''standard'') =
     Inr [\<lparr>time = ''10:30 AM'', user = ''John'', content = ''Hey what's up'', format = ''discord''\<rparr>] \<and>
   parse ''[10:30 AM] John: Hey what's up\<newline>[10:31 AM] Jane: Not much, you?'' =
     Inr [\<lparr>time = ''10:30 AM'', user = ''John'', content = ''Hey what's up'', format = ''discord''\<rparr>,
          \<lparr>time = ''10:31 AM'', user = ''Jane'', content = ''Not much, you?'', format = ''discord''\<rparr>]"
  by (simp add: parse_eval parseLine_discord_example parseLine_whatsapp1_example
      parseLine_whatsapp2_example parseLine_generic1_example parseLine_second_example)

text \<open>
  C1 as stated fails: the examples of imessage, slack, telegram and sms parse to no
  message at all, and the example of standard parses to a message tagged discord.
\<close>

theorem examples_without_their_tag:
  "parse (getFormatExample ''imessage'') = Inr [] \<and>
   parse (getFormatExample ''slack'') = Inr [] \<and>
   parse (getFormatExample ''telegram'') = Inr [] \<and>
   parse (getFormatExample ''sms'') = Inr [] \<and>
   parse (getFormatExample ''standard'') =
     Inr [\<lparr>time = ''10:30 AM'', user = ''John'', content = ''Hey what's up'', format = ''discord''\<rparr>]"
  by (simp add: parse_eval parseLine_discord_example parseLine_plain_lines
      parseLine_telegram_header)

section \<open>The multi-line rules never fire in parse\<close>

text \<open>
  C2: no message that \<open>parse\<close> returns carries the tag imessage, slack, telegram or sms.
  The lines \<open>parse\<close> classifies hold no line feed, and each of the four patterns needs
  one.
\<close>

theorem multiline_rules_unreachable:
  "(\<forall>l\<in>set (lines_of text). CHR 0x0A \<notin> set l) \<and>
   (CHR 0x0A \<notin> set line \<longrightarrow>
      \<not> test imessage_re line \<and> \<not> test slack_re line \<and> \<not> test telegram_re line \<and>
      \<not> test sms_re line) \<and>
   (parse text = Inr ms \<and> m \<in> set ms \<longrightarrow>
      format m \<notin> {''imessage'', ''slack'', ''telegram'', ''sms''})"
proof -
  have 1: "\<forall>l\<in>set (lines_of text). CHR 0x0A \<notin> set l"
    using lines_of_no_newline by blast
  have 2: "\<not> test imessage_re line \<and> \<not> test slack_re line \<and> \<not> test telegram_re line \<and>
      \<not> test sms_re line" if "CHR 0x0A \<notin> set line"
    using multiline_rules_need_newline [OF that] by (simp add: test_def)
  have 3: "format m \<notin> {''imessage'', ''slack'', ''telegram'', ''sms''}"
    if a: "parse text = Inr ms \<and> m \<in> set ms"
  proof -
    let ?Q = "\<lambda>fmt. fmt \<in> {''discord'', ''whatsapp1'', ''whatsapp2'', ''generic1''}"
    have lines: "\<forall>l\<in>set (lines_of text). \<forall>p. parseLine l = Inr (Some p) \<longrightarrow> ?Q (format p)"
      using parseLine_single_line_format lines_of_no_newline by blast
    have "?Q (format m)"
    proof (cases "text = [] \<or> trim text = []")
      case True
      with a show ?thesis by (auto simp: parse_def)
    next
      case False
      with a have "parse_loop (lines_of text) [] None = Inr ms" by (simp add: parse_def)
      from parse_loop_formats [where Q = ?Q, OF lines this] a show ?thesis by simp
    qed
    then show ?thesis by auto
  qed
  from 1 2 3 show ?thesis by blast
qed

theorem multiline_rules_unreachable_witness:
  "parse ''John Doe\<newline>10:30 AM\<newline>[10:31] Jane: hi'' =
     Inr [\<lparr>time = ''10:31'', user = ''Jane'', content = ''hi'', format = ''discord''\<rparr>] \<and>
   \<lparr>time = ''10:31'', user = ''Jane'', content = ''hi'', format = ''discord''\<rparr>
     \<in> set [\<lparr>time = ''10:31'', user = ''Jane'', content = ''hi'', format = ''discord''\<rparr>] \<and>
   format \<lparr>time = ''10:31'', user = ''Jane'', content = ''hi'', format = ''discord''\<rparr>
     \<notin> {''imessage'', ''slack'', ''telegram'', ''sms''} \<and>
   CHR 0x0A \<notin> set ''John Doe'' \<and> \<not> test imessage_re ''John Doe'' \<and> \<not> test slack_re ''John Doe'' \<and>
   \<not> test telegram_re ''John Doe'' \<and> \<not> test sms_re ''John Doe''"
proof -
  have p: "parse ''John Doe\<newline>10:30 AM\<newline>[10:31] Jane: hi'' =
     Inr [\<lparr>time = ''10:31'', user = ''Jane'', content = ''hi'', format = ''discord''\<rparr>]"
    by code_simp
  have n: "CHR 0x0A \<notin> set ''John Doe''" by simp
  from multiline_rules_unreachable
    [of "''John Doe\<newline>10:30 AM\<newline>[10:31] Jane: hi''" "''John Doe''"
        "[\<lparr>time = ''10:31'', user = ''Jane'', content = ''hi'', format = ''discord''\<rparr>]"
        "\<lparr>time = ''10:31'', user = ''Jane'', content = ''hi'', format = ''discord''\<rparr>"]
    p n
  show ?thesis by simp
qed

section \<open>The first rule that matches wins\<close>

lemma parseLine_None_iff:
  "parseLine line = Inr None \<longleftrightarrow> (\<forall>p\<in>set patterns. \<not> test (snd p) line)"
  unfolding parseLine_def parseLine_loop_None
  by (metis in_set_conv_nth)

text \<open>
  C4: \<open>parseLine\<close> tries the rules in the order imessage, discord, whatsapp1, whatsapp2,
  slack, generic1, telegram, sms, standard and answers with the first whose pattern
  matches, so the tag it reports is the earliest one that matches; it answers with no
  message exactly when no pattern matches, and it never throws. The patterns of discord
  and standard are the same, so the tag standard is never reported.
\<close>

theorem first_matching_rule_wins:
  "map fst patterns =
     [''imessage'', ''discord'', ''whatsapp1'', ''whatsapp2'', ''slack'', ''generic1'',
      ''telegram'', ''sms'', ''standard''] \<and>
   (parseLine line = Inr (Some msg) \<longrightarrow>
      (\<exists>i<length patterns. format msg = fst (patterns ! i) \<and> test (snd (patterns ! i)) line \<and>
         (\<forall>j<i. \<not> test (snd (patterns ! j)) line)) \<and>
      format msg \<noteq> ''standard'') \<and>
   (parseLine line = Inr None \<longleftrightarrow> (\<forall>i<length patterns. \<not> test (snd (patterns ! i)) line)) \<and>
   parseLine line \<noteq> Inl e \<and>
   standard_re = discord_re"
proof -
  have 1: "map fst patterns =
     [''imessage'', ''discord'', ''whatsapp1'', ''whatsapp2'', ''slack'', ''generic1'',
      ''telegram'', ''sms'', ''standard'']"
    by (simp add: patterns_def)
  have 2: "(\<exists>i<length patterns. format msg = fst (patterns ! i) \<and> test (snd (patterns ! i)) line \<and>
         (\<forall>j<i. \<not> test (snd (patterns ! j)) line)) \<and> format msg \<noteq> ''standard''"
    if "parseLine line = Inr (Some msg)"
    using that parseLine_loop_Some [of patterns line msg] parseLine_not_standard [of line msg]
    by (simp add: parseLine_def)
  have 3: "parseLine line = Inr None \<longleftrightarrow> (\<forall>i<length patterns. \<not> test (snd (patterns ! i)) line)"
    unfolding parseLine_def by (rule parseLine_loop_None)
  have 4: "parseLine line \<noteq> Inl e"
    using parseLine_total [of line] by auto
  from 1 2 3 4 standard_is_discord show ?thesis by blast
qed

theorem first_matching_rule_wins_witness:
  "parseLine ''[10:30 AM] John: Hey what's up'' =
     Inr (Some \<lparr>time = ''10:30 AM'', user = ''John'', content = ''Hey what's up'', format = ''discord''\<rparr>) \<and>
   format \<lparr>time = ''10:30 AM'', user = ''John'', content = ''Hey what's up'', format = ''discord''\<rparr>
     \<noteq> ''standard'' \<and>
   test discord_re ''[10:30 AM] John: Hey what's up'' \<and>
   test standard_re ''[10:30 AM] John: Hey what's up'' \<and>
   \<not> test imessage_re ''[10:30 AM] John: Hey what's up''"
proof -
  have d: "test discord_re ''[10:30 AM] John: Hey what's up''" by code_simp
  have i: "\<not> test imessage_re ''[10:30 AM] John: Hey what's up''"
    using multiline_rules_need_newline(1) [of "''[10:30 AM] John: Hey what's up''"]
    by (simp add: test_def)
  from first_matching_rule_wins
    [of "''[10:30 AM] John: Hey what's up''"
        "\<lparr>time = ''10:30 AM'', user = ''John'', content = ''Hey what's up'', format = ''discord''\<rparr>"]
    parseLine_discord_example d i
  show ?thesis by simp
qed

section \<open>parse never throws\<close>

text \<open>
  C8: \<open>parse\<close> returns a list of messages for every input, never an error; the list is
  empty for an input that is empty or white space only, and for an input none of whose
  lines matches any rule.
\<close>

theorem parse_never_throws:
  "(\<exists>ms. parse text = Inr ms) \<and>
   ((\<forall>c\<in>set text. is_space c) \<longrightarrow> parse text = Inr []) \<and>
   ((\<forall>l\<in>set (lines_of text). \<forall>p\<in>set patterns. \<not> test (snd p) l) \<longrightarrow> parse text = Inr [])"
proof -
  have 1: "\<exists>ms. parse text = Inr ms"
    using parse_loop_total [of "lines_of text" "[]" None] by (simp add: parse_def)
  have 2: "parse text = Inr []" if "\<forall>c\<in>set text. is_space c"
    using that trim_Nil_iff [of "text"] by (simp add: parse_def)
  have 3: "parse text = Inr []" if "\<forall>l\<in>set (lines_of text). \<forall>p\<in>set patterns. \<not> test (snd p) l"
  proof -
    from that have "\<forall>l\<in>set (lines_of text). parseLine l = Inr None"
      by (simp add: parseLine_None_iff)
    from parse_loop_no_match [OF this] show ?thesis by (simp add: parse_def)
  qed
  from 1 2 3 show ?thesis by blast
qed

theorem parse_never_throws_witness:
  "list_all is_space ''   '' \<and> parse ''   '' = Inr [] \<and>
   lines_of ''John Doe\<newline>10:30 AM'' = [''John Doe'', ''10:30 AM''] \<and>
   parseLine ''John Doe'' = Inr None \<and> parseLine ''10:30 AM'' = Inr None \<and>
   parse ''John Doe\<newline>10:30 AM'' = Inr [] \<and>
   (\<exists>ms. parse ''[10:30 AM] John: Hey what's up'' = Inr ms)"
proof -
  have s: "\<forall>c\<in>set ''   ''. is_space c" by (simp add: is_space_def)
  have l: "lines_of ''John Doe\<newline>10:30 AM'' = [''John Doe'', ''10:30 AM'']"
    by (simp add: lines_of_def trim_def is_space_def)
  have n: "\<forall>l\<in>set (lines_of ''John Doe\<newline>10:30 AM''). \<forall>p\<in>set patterns. \<not> test (snd p) l"
    unfolding l using parseLine_plain_lines(1,2) by (simp add: parseLine_None_iff)
  from parse_never_throws [of "''   ''"] s parse_never_throws [of "''John Doe\<newline>10:30 AM''"] n
    parse_never_throws [of "''[10:30 AM] John: Hey what's up''"] l parseLine_plain_lines(1,2)
  show ?thesis by (simp add: is_space_def)
qed

section \<open>Continuation lines\<close>

lemma split_nl_append: "split_nl (a @ CHR 0x0A # b) = split_nl a @ split_nl b"
proof (induction a)
  case Nil
  then show ?case by simp
next
  case (Cons c cs)
  obtain h t where ht: "split_nl cs = h # t" by (cases "split_nl cs") simp_all
  with Cons show ?case by simp
qed

lemma split_nl_single: "CHR 0x0A \<notin> set l \<Longrightarrow> split_nl l = [l]"
  by (induction l) auto

lemma lines_of_snoc:
  assumes "l \<noteq> []" "trim l = l" "CHR 0x0A \<notin> set l"
  shows "lines_of (t @ CHR 0x0A # l) = lines_of t @ [l]"
  using assms by (simp add: lines_of_def split_nl_append split_nl_single)

lemma parse_loop_snoc:
  assumes "parseLine l = Inr None"
  shows "parse_loop ls msgs cur = Inr (out @ [m]) \<Longrightarrow> cur \<noteq> None \<or> msgs = [] \<Longrightarrow>
         parse_loop (ls @ [l]) msgs cur = Inr (out @ [m\<lparr>content := content m @ '' '' @ l\<rparr>])"
proof (induction ls arbitrary: msgs cur)
  case Nil
  then obtain c where c: "cur = Some c" by (cases cur) auto
  with Nil have "msgs = out" "c = m" by simp_all
  with c assms show ?case by simp
next
  case (Cons x xs)
  obtain r where r: "parseLine x = Inr r" using parseLine_total by blast
  show ?case
  proof (cases r)
    case None
    show ?thesis
    proof (cases cur)
      case None': None
      with None r Cons.prems have "parse_loop xs msgs None = Inr (out @ [m])" "msgs = []" by simp_all
      from Cons.IH [OF this(1)] this(2) None None' r show ?thesis by simp
    next
      case (Some c)
      with None r Cons.prems have
        "parse_loop xs msgs (Some (c\<lparr>content := content c @ '' '' @ x\<rparr>)) = Inr (out @ [m])" by simp
      from Cons.IH [OF this] None Some r show ?thesis by simp
    qed
  next
    case (Some p)
    show ?thesis
    proof (cases cur)
      case None
      with Some r Cons.prems have "parse_loop xs msgs (Some p) = Inr (out @ [m])" by simp
      from Cons.IH [OF this] None Some r show ?thesis by simp
    next
      case c: (Some c)
      with Some r Cons.prems have "parse_loop xs (msgs @ [c]) (Some p) = Inr (out @ [m])" by simp
      from Cons.IH [OF this] c Some r show ?thesis by simp
    qed
  qed
qed

lemma parse_snoc:
  assumes "parse t = Inr (out @ [m])" "l \<noteq> []" "trim l = l" "CHR 0x0A \<notin> set l"
    "parseLine l = Inr None"
  shows "parse (t @ CHR 0x0A # l) = Inr (out @ [m\<lparr>content := content m @ '' '' @ l\<rparr>])"
proof -
  from assms(1) have nb: "\<not> (t = [] \<or> trim t = [])"
    by (auto simp: parse_def)
  with assms(1) have 1: "parse_loop (lines_of t) [] None = Inr (out @ [m])"
    by (simp add: parse_def)
  from assms(2,3) have "\<not> (\<forall>c\<in>set l. is_space c)"
    using trim_Nil_iff [of l] by auto
  then have "trim (t @ CHR 0x0A # l) \<noteq> []"
    using trim_Nil_iff [of "t @ CHR 0x0A # l"] by auto
  moreover from parse_loop_snoc [OF assms(5) 1]
  have "parse_loop (lines_of t @ [l]) [] None = Inr (out @ [m\<lparr>content := content m @ '' '' @ l\<rparr>])"
    by simp
  ultimately show ?thesis
    by (simp add: parse_def lines_of_snoc [OF assms(2-4)])
qed

text \<open>
  C7: \<open>parse("[10:30 AM] John: Hello\nstill talking")\<close> is exactly one message with the
  content \<open>Hello still talking\<close>. In general, while a message is open, a line that matches
  no rule is appended to the content of that message after a single space: this is one
  round of the loop of \<open>parse\<close>, and it is what one more such line at the end of a
  transcript does to the last message.
\<close>

theorem continuation_folding:
  "parse ''[10:30 AM] John: Hello\<newline>still talking'' =
     Inr [\<lparr>time = ''10:30 AM'', user = ''John'', content = ''Hello still talking'', format = ''discord''\<rparr>] \<and>
   (parseLine line = Inr None \<longrightarrow>
      parse_loop (line # lines) messages (Some cur) =
      parse_loop lines messages (Some (cur\<lparr>content := content cur @ '' '' @ line\<rparr>))) \<and>
   (parse t = Inr (out @ [m]) \<and> l \<noteq> [] \<and> trim l = l \<and> CHR 0x0A \<notin> set l \<and>
    parseLine l = Inr None \<longrightarrow>
      parse (t @ CHR 0x0A # l) = Inr (out @ [m\<lparr>content := content m @ '' '' @ l\<rparr>]))"
proof -
  have h: "parseLine ''[10:30 AM] John: Hello'' =
     Inr (Some \<lparr>time = ''10:30 AM'', user = ''John'', content = ''Hello'', format = ''discord''\<rparr>)"
    by code_simp
  have 1: "parse ''[10:30 AM] John: Hello\<newline>still talking'' =
     Inr [\<lparr>time = ''10:30 AM'', user = ''John'', content = ''Hello still talking'', format = ''discord''\<rparr>]"
    by (simp add: parse_eval h parseLine_plain_lines)
  have 2: "parse_loop (line # lines) messages (Some cur) =
      parse_loop lines messages (Some (cur\<lparr>content := content cur @ '' '' @ line\<rparr>))"
    if "parseLine line = Inr None"
    using that by simp
  from 1 2 parse_snoc show ?thesis by blast
qed

theorem continuation_folding_witness:
  "parse ''[10:30 AM] John: Hey what's up'' =
     Inr ([] @ [\<lparr>time = ''10:30 AM'', user = ''John'', content = ''Hey what's up'', format = ''discord''\<rparr>]) \<and>
   ''still talking'' \<noteq> [] \<and> trim ''still talking'' = ''still talking'' \<and>
   CHR 0x0A \<notin> set ''still talking'' \<and> parseLine ''still talking'' = Inr None \<and>
   parse (''[10:30 AM] John: Hey what's up'' @ CHR 0x0A # ''still talking'') =
     Inr [\<lparr>time = ''10:30 AM'', user = ''John'', content = ''Hey what's up still talking'',
           format = ''discord''\<rparr>]"
proof -
  have p: "parse ''[10:30 AM] John: Hey what's up'' =
     Inr ([] @ [\<lparr>time = ''10:30 AM'', user = ''John'', content = ''Hey what's up'', format = ''discord''\<rparr>])"
    by (simp add: parse_eval parseLine_discord_example)
  have t: "trim ''still talking'' = ''still talking''"
    by (simp add: trim_def is_space_def)
  from continuation_folding
    [of "''still talking''" "[]" "[]"
        "\<lparr>time = ''10:30 AM'', user = ''John'', content = ''Hey what's up'', format = ''discord''\<rparr>"
        "''[10:30 AM] John: Hey what's up''" "[]"
        "\<lparr>time = ''10:30 AM'', user = ''John'', content = ''Hey what's up'', format = ''discord''\<rparr>"
        "''still talking''"]
    p t parseLine_plain_lines(6)
  show ?thesis by simp
qed

section \<open>The format detector\<close>

text \<open>
  The detector as the specification words it: the sample is made of the first five
  non-empty lines.
\<close>

definition detectFormat_spec :: "string \<Rightarrow> string" where
  "detectFormat_spec text =
     detectFormat_loop patterns (join_nl (take 5 (filter (\<lambda>l. l \<noteq> []) (split_nl text))))"

lemma detectFormat_loop_first:
  "i < length ps \<Longrightarrow> test (snd (ps ! i)) s \<Longrightarrow> \<forall>j<i. \<not> test (snd (ps ! j)) s \<Longrightarrow>
   detectFormat_loop ps s = fst (ps ! i)"
proof (induction ps arbitrary: i)
  case Nil
  then show ?case by simp
next
  case (Cons p ps)
  obtain fmt pat where p: "p = (fmt, pat)" by (cases p)
  show ?case
  proof (cases i)
    case 0
    with Cons.prems p show ?thesis by simp
  next
    case (Suc k)
    with Cons.prems(3) have "\<not> test (snd ((p # ps) ! 0)) s" by blast
    with p have n: "\<not> test pat s" by simp
    from Cons.prems Suc have "k < length ps" "test (snd (ps ! k)) s" by simp_all
    moreover have "\<forall>j<k. \<not> test (snd (ps ! j)) s"
    proof (intro allI impI)
      fix j assume "j < k"
      with Suc have "Suc j < i" by simp
      with Cons.prems(3) have "\<not> test (snd ((p # ps) ! Suc j)) s" by blast
      then show "\<not> test (snd (ps ! j)) s" by simp
    qed
    ultimately have "detectFormat_loop ps s = fst (ps ! k)" by (rule Cons.IH)
    with n p Suc show ?thesis by simp
  qed
qed

lemma detectFormat_loop_unknown:
  "\<forall>i<length ps. \<not> test (snd (ps ! i)) s \<Longrightarrow> detectFormat_loop ps s = ''unknown''"
proof (induction ps)
  case Nil
  then show ?case by simp
next
  case (Cons p ps)
  obtain fmt pat where p: "p = (fmt, pat)" by (cases p)
  from Cons.prems have "\<not> test (snd ((p # ps) ! 0)) s" by blast
  with p have n: "\<not> test pat s" by simp
  have "\<forall>i<length ps. \<not> test (snd (ps ! i)) s"
  proof (intro allI impI)
    fix i assume "i < length ps"
    then have "Suc i < length (p # ps)" by simp
    with Cons.prems have "\<not> test (snd ((p # ps) ! Suc i)) s" by blast
    then show "\<not> test (snd (ps ! i)) s" by simp
  qed
  with Cons.IH n p show ?case by simp
qed

lemma detectFormat_loop_range:
  "detectFormat_loop ps s = ''unknown'' \<or> detectFormat_loop ps s \<in> set (map fst ps)"
proof (induction ps)
  case Nil
  then show ?case by simp
next
  case (Cons p ps)
  obtain fmt pat where p: "p = (fmt, pat)" by (cases p)
  show ?case
  proof (cases "test pat s")
    case True
    with p show ?thesis by simp
  next
    case False
    with p have "detectFormat_loop (p # ps) s = detectFormat_loop ps s" by simp
    with Cons.IH show ?thesis by auto
  qed
qed

lemma take_filter_all:
  "\<forall>l\<in>set (take n ls). P l \<Longrightarrow> take n (filter P ls) = take n ls"
proof (induction ls arbitrary: n)
  case Nil
  then show ?case by simp
next
  case (Cons l ls)
  then show ?case by (cases n) simp_all
qed

text \<open>
  C5, as the code has it: the sample of \<open>detectFormat\<close> is made of the first five lines
  of the transcript, empty or not, joined with line feeds. The rules are tested on it in
  the order of the table: the answer is the name of the first rule whose pattern matches
  somewhere in the sample, and \<open>unknown\<close> when none does. When none of the first five
  lines is empty this is the detector of the specification.
\<close>

theorem detectFormat_first_five_lines:
  "(detectFormat text = ''unknown'' \<or> detectFormat text \<in> set (map fst patterns)) \<and>
   (i < length patterns \<and> test (snd (patterns ! i)) (join_nl (take 5 (split_nl text))) \<and>
    (\<forall>j<i. \<not> test (snd (patterns ! j)) (join_nl (take 5 (split_nl text)))) \<longrightarrow>
      detectFormat text = fst (patterns ! i)) \<and>
   ((\<forall>i<length patterns. \<not> test (snd (patterns ! i)) (join_nl (take 5 (split_nl text)))) \<longrightarrow>
      detectFormat text = ''unknown'') \<and>
   ((\<forall>l\<in>set (take 5 (split_nl text)). l \<noteq> []) \<longrightarrow> detectFormat text = detectFormat_spec text)"
proof -
  have 1: "detectFormat text = ''unknown'' \<or> detectFormat text \<in> set (map fst patterns)"
    unfolding detectFormat_def by (rule detectFormat_loop_range)
  have 2: "detectFormat text = fst (patterns ! i)"
    if "i < length patterns \<and> test (snd (patterns ! i)) (join_nl (take 5 (split_nl text))) \<and>
        (\<forall>j<i. \<not> test (snd (patterns ! j)) (join_nl (take 5 (split_nl text))))"
    unfolding detectFormat_def using that by (blast intro: detectFormat_loop_first)
  have 3: "detectFormat text = ''unknown''"
    if "\<forall>i<length patterns. \<not> test (snd (patterns ! i)) (join_nl (take 5 (split_nl text)))"
    unfolding detectFormat_def using that by (rule detectFormat_loop_unknown)
  have 4: "detectFormat text = detectFormat_spec text"
    if "\<forall>l\<in>set (take 5 (split_nl text)). l \<noteq> []"
    unfolding detectFormat_def detectFormat_spec_def using take_filter_all [OF that] by simp
  from 1 2 3 4 show ?thesis by blast
qed

theorem detectFormat_first_five_lines_witness:
  "Suc 0 < length patterns \<and>
   join_nl (take 5 (split_nl ''[10:30 AM] John: Hey what's up'')) = ''[10:30 AM] John: Hey what's up'' \<and>
   test (snd (patterns ! Suc 0)) ''[10:30 AM] John: Hey what's up'' \<and>
   \<not> test (snd (patterns ! 0)) ''[10:30 AM] John: Hey what's up'' \<and>
   detectFormat ''[10:30 AM] John: Hey what's up'' = ''discord'' \<and>
   detectFormat_spec ''[10:30 AM] John: Hey what's up'' = ''discord'' \<and>
   detectFormat ''John Doe'' = ''unknown''"
proof -
  let ?L = "''[10:30 AM] John: Hey what's up''"
  have s: "join_nl (take 5 (split_nl ?L)) = ?L" by simp
  have s': "join_nl (take 5 (split_nl ''John Doe'')) = ''John Doe''" by simp
  have d: "test (snd (patterns ! Suc 0)) ?L"
    unfolding patterns_nth snd_conv by code_simp
  have i: "\<not> test (snd (patterns ! 0)) ?L"
    unfolding patterns_nth snd_conv
    using multiline_rules_need_newline(1) [of ?L] by (simp add: test_def)
  have l: "Suc 0 < length patterns" by (simp add: patterns_def)
  have h1: "Suc 0 < length patterns \<and> test (snd (patterns ! Suc 0)) (join_nl (take 5 (split_nl ?L))) \<and>
    (\<forall>j<Suc 0. \<not> test (snd (patterns ! j)) (join_nl (take 5 (split_nl ?L))))"
    unfolding s using l d i by simp
  have h2: "\<forall>l\<in>set (take 5 (split_nl ?L)). l \<noteq> []" by simp
  have h3: "\<forall>i<length patterns. \<not> test (snd (patterns ! i)) (join_nl (take 5 (split_nl ''John Doe'')))"
    unfolding s' using parseLine_plain_lines(1) by (simp add: parseLine_def parseLine_loop_None)
  from detectFormat_first_five_lines [of ?L "Suc 0"] h1
  have a: "detectFormat ?L = fst (patterns ! Suc 0)" by blast
  from detectFormat_first_five_lines [of ?L "Suc 0"] h2
  have b: "detectFormat ?L = detectFormat_spec ?L" by blast
  from detectFormat_first_five_lines [of "''John Doe''" 0] h3
  have c: "detectFormat ''John Doe'' = ''unknown''" by blast
  from a have a': "detectFormat ?L = ''discord''" by (simp add: patterns_nth)
  with b have b': "detectFormat_spec ?L = ''discord''" by simp
  from l s d i a' b' c show ?thesis by blast
qed

text \<open>
  C5 as stated fails: after five empty lines the sample of the code is empty lines only,
  and the answer is \<open>unknown\<close>, where the first five non-empty lines give discord.
\<close>

theorem detectFormat_counts_empty_lines:
  "detectFormat ''\<newline>\<newline>\<newline>\<newline>\<newline>[10:30] a: b'' = ''unknown'' \<and>
   detectFormat_spec ''\<newline>\<newline>\<newline>\<newline>\<newline>[10:30] a: b'' = ''discord''"
proof -
  have "detectFormat ''\<newline>\<newline>\<newline>\<newline>\<newline>[10:30] a: b'' = ''unknown''" by code_simp
  moreover have "detectFormat_spec ''\<newline>\<newline>\<newline>\<newline>\<newline>[10:30] a: b'' = ''discord''" by code_simp
  ultimately show ?thesis by blast
qed

section \<open>normalizeTime\<close>

text \<open>
  A meridiem marker is two characters: \<open>a\<close> or \<open>p\<close>, then \<open>m\<close>, in either case.
\<close>

definition is_meridiem :: "char \<Rightarrow> char \<Rightarrow> bool" where
  "is_meridiem a b = (a \<in> set ''aApP'' \<and> b \<in> set ''mM'')"

text \<open>
  What \<open>normalizeTime\<close> does, written without regular expressions: a space goes after
  the leftmost digit that a marker follows at once, and the leftmost marker of the result
  is put in upper case.
\<close>

fun space_first :: "string \<Rightarrow> string" where
  "space_first (d # a # b # s) =
     (if is_digit d \<and> is_meridiem a b then d # CHR '' '' # a # b # s
      else d # space_first (a # b # s))"
| "space_first s = s"

fun upper_first :: "string \<Rightarrow> string" where
  "upper_first (a # b # s) =
     (if is_meridiem a b then upper_char a # upper_char b # s
      else a # upper_first (b # s))"
| "upper_first s = s"

text \<open>
  The normalizer as the specification words it: a space after every digit that a marker
  follows at once, and every marker in upper case.
\<close>

fun space_all :: "string \<Rightarrow> string" where
  "space_all (d # a # b # s) =
     (if is_digit d \<and> is_meridiem a b then d # CHR '' '' # a # b # space_all s
      else d # space_all (a # b # s))"
| "space_all s = s"

fun upper_all :: "string \<Rightarrow> string" where
  "upper_all (a # b # s) =
     (if is_meridiem a b then upper_char a # upper_char b # upper_all s
      else a # upper_all (b # s))"
| "upper_all s = s"

definition normalizeTime_spec :: "string \<Rightarrow> string" where
  "normalizeTime_spec s = upper_all (space_all s)"

lemma upper_char_letters_val:
  "upper_char (CHR ''A'') = CHR ''A''" "upper_char (CHR ''M'') = CHR ''M''"
  "upper_char (CHR ''P'') = CHR ''P''" "upper_char (CHR ''a'') = CHR ''A''"
  "upper_char (CHR ''m'') = CHR ''M''" "upper_char (CHR ''p'') = CHR ''P''"
  by (simp_all add: upper_char_def)

lemma is_meridiem_canonical:
  "is_meridiem a b \<longleftrightarrow>
     (upper_char a = CHR ''A'' \<and> upper_char b = CHR ''M'') \<or>
     (upper_char a = CHR ''P'' \<and> upper_char b = CHR ''M'')"
  by (auto simp: is_meridiem_def upper_char_upper_A upper_char_upper_M upper_char_upper_P)

lemma match_here_digit_meridiem:
  "match_here digit_meridiem_re pv s =
     (case s of
        d # a # b # s' \<Rightarrow>
          if is_digit d \<and> is_meridiem a b
          then Some \<lparr>prev = Some b, rest = s', caps = [1 \<mapsto> [d], 2 \<mapsto> [a, b]]\<rparr>
          else None
      | _ \<Rightarrow> None)"
proof (cases s)
  case Nil
  then show ?thesis
    by (simp add: match_here_def digit_meridiem_re_def one_char_def)
next
  case s1: (Cons d s1)
  show ?thesis
  proof (cases s1)
    case Nil
    with s1 show ?thesis
      by (simp add: match_here_def digit_meridiem_re_def one_char_def)
  next
    case s2: (Cons a s2)
    show ?thesis
    proof (cases s2)
      case Nil
      with s1 s2 show ?thesis
        by (simp add: match_here_def digit_meridiem_re_def one_char_def)
    next
      case (Cons b s')
      with s1 s2 show ?thesis
        by (auto simp: match_here_def digit_meridiem_re_def one_char_def flags_i_def
            canonicalize_def upper_char_letters_val is_meridiem_canonical fun_upd_twist)
    qed
  qed
qed

lemma match_here_meridiem:
  "match_here meridiem_re pv s =
     (case s of
        a # b # s' \<Rightarrow>
          if is_meridiem a b
          then Some \<lparr>prev = Some b, rest = s', caps = [1 \<mapsto> [a, b]]\<rparr>
          else None
      | _ \<Rightarrow> None)"
proof (cases s)
  case Nil
  then show ?thesis
    by (simp add: match_here_def meridiem_re_def one_char_def)
next
  case s1: (Cons a s1)
  show ?thesis
  proof (cases s1)
    case Nil
    with s1 show ?thesis
      by (simp add: match_here_def meridiem_re_def one_char_def)
  next
    case (Cons b s')
    with s1 show ?thesis
      by (auto simp: match_here_def meridiem_re_def one_char_def flags_i_def
          canonicalize_def upper_char_letters_val is_meridiem_canonical)
  qed
qed

definition replace_from :: "regex \<Rightarrow> (string \<Rightarrow> (nat \<rightharpoonup> string) \<Rightarrow> string) \<Rightarrow> char option \<Rightarrow> string \<Rightarrow> string" where
  "replace_from r sub pv s =
     (case exec_from r pv s of
        None \<Rightarrow> s
      | Some fd \<Rightarrow> leading fd @ sub (matched fd) (groups fd) @ trailing fd)"

lemma replace_first_from: "replace_first r sub s = replace_from r sub None s"
  by (simp add: replace_first_def replace_from_def exec_def)

lemma replace_from_Cons_None:
  "match_here r pv (c # cs) = None \<Longrightarrow> replace_from r sub pv (c # cs) = c # replace_from r sub (Some c) cs"
  by (simp add: replace_from_def split: option.splits)

lemma replace_from_digit_meridiem:
  "replace_from digit_meridiem_re (\<lambda>m g. subst_group g 1 @ '' '' @ subst_group g 2) pv s = space_first s"
proof (induction s arbitrary: pv rule: space_first.induct)
  case (1 d a b s)
  show ?case
  proof (cases "is_digit d \<and> is_meridiem a b")
    case True
    then show ?thesis
      by (simp add: replace_from_def match_here_digit_meridiem subst_group_def)
  next
    case False
    then have "match_here digit_meridiem_re pv (d # a # b # s) = None"
      by (simp add: match_here_digit_meridiem)
    then have "replace_from digit_meridiem_re (\<lambda>m g. subst_group g 1 @ '' '' @ subst_group g 2) pv (d # a # b # s) =
        d # replace_from digit_meridiem_re (\<lambda>m g. subst_group g 1 @ '' '' @ subst_group g 2) (Some d) (a # b # s)"
      by (rule replace_from_Cons_None)
    also have "\<dots> = d # space_first (a # b # s)" using 1 [OF False] by simp
    also have "\<dots> = space_first (d # a # b # s)" using False by auto
    finally show ?thesis .
  qed
qed (simp_all add: replace_from_def match_here_digit_meridiem)

lemma replace_from_meridiem:
  "replace_from meridiem_re (\<lambda>m g. toUpperCase m) pv s = upper_first s"
proof (induction s arbitrary: pv rule: upper_first.induct)
  case (1 a b s)
  show ?case
  proof (cases "is_meridiem a b")
    case True
    then show ?thesis
      by (simp add: replace_from_def match_here_meridiem toUpperCase_def)
  next
    case False
    then have "match_here meridiem_re pv (a # b # s) = None"
      by (simp add: match_here_meridiem)
    then have "replace_from meridiem_re (\<lambda>m g. toUpperCase m) pv (a # b # s) =
        a # replace_from meridiem_re (\<lambda>m g. toUpperCase m) (Some a) (b # s)"
      by (rule replace_from_Cons_None)
    also have "\<dots> = a # upper_first (b # s)" using 1 [OF False] by simp
    also have "\<dots> = upper_first (a # b # s)" using False by auto
    finally show ?thesis .
  qed
qed (simp_all add: replace_from_def match_here_meridiem)

lemma normalizeTime_plain: "normalizeTime s = upper_first (space_first s)"
  unfolding normalizeTime_def Let_def replace_first_from replace_from_digit_meridiem
    replace_from_meridiem
  by (rule refl)

text \<open>
  C6, as the code has it: \<open>normalizeTime\<close> puts a single space after the leftmost digit
  that a meridiem marker follows at once, then puts the leftmost meridiem marker of the
  result in upper case, and leaves every other character as it is.
\<close>

theorem normalizeTime_first_marker_only:
  "normalizeTime s = upper_first (space_first s)"
  by (rule normalizeTime_plain)

text \<open>
  C6 as stated fails where a string holds two markers: the second one keeps its case and
  gets no space.
\<close>

theorem normalizeTime_second_marker_kept:
  "normalizeTime ''1am 2pm'' = ''1 AM 2pm'' \<and> normalizeTime_spec ''1am 2pm'' = ''1 AM 2 PM''"
proof -
  have "normalizeTime ''1am 2pm'' = ''1 AM 2pm''" by code_simp
  moreover have "normalizeTime_spec ''1am 2pm'' = ''1 AM 2 PM''" by code_simp
  ultimately show ?thesis by blast
qed

section \<open>Matches without backtracking\<close>


















section \<open>The canonical line\<close>

lemma upper_char_cases:
  "upper_char x = x \<or> upper_char x \<in> set ''ABCDEFGHIJKLMNOPQRSTUVWXYZ''"
proof (cases "map_of (zip ''abcdefghijklmnopqrstuvwxyz'' ''ABCDEFGHIJKLMNOPQRSTUVWXYZ'') x")
  case None
  then have "upper_char x = x" unfolding upper_char_def by (simp only: option.case)
  then show ?thesis ..
next
  case (Some u)
  then have "(x, u) \<in> set (zip ''abcdefghijklmnopqrstuvwxyz'' ''ABCDEFGHIJKLMNOPQRSTUVWXYZ'')"
    by (rule map_of_SomeD)
  then have "u \<in> set ''ABCDEFGHIJKLMNOPQRSTUVWXYZ''" by (rule set_zip_rightD)
  moreover from Some have "upper_char x = u" unfolding upper_char_def by (simp only: option.case)
  ultimately show ?thesis by blast
qed

lemma upper_char_nonletter:
  assumes "c \<notin> set ''abcdefghijklmnopqrstuvwxyzABCDEFGHIJKLMNOPQRSTUVWXYZ''"
  shows "upper_char c = c" "upper_char x = c \<longleftrightarrow> x = c"
proof -
  from assms have l: "c \<notin> set ''abcdefghijklmnopqrstuvwxyz''"
    and u: "c \<notin> set ''ABCDEFGHIJKLMNOPQRSTUVWXYZ''" by simp_all
  from l show c: "upper_char c = c" by (simp add: upper_char_def)
  show "upper_char x = c \<longleftrightarrow> x = c"
  proof
    assume a: "upper_char x = c"
    with upper_char_cases [of x] u have "upper_char x = x" by metis
    with a show "x = c" by simp
  next
    assume "x = c"
    with c show "upper_char x = c" by simp
  qed
qed



lemma canonicalize_i_nonletter:
  "c \<notin> set ''abcdefghijklmnopqrstuvwxyzABCDEFGHIJKLMNOPQRSTUVWXYZ'' \<Longrightarrow>
   canonicalize flags_i x = canonicalize flags_i c \<longleftrightarrow> x = c"
  by (simp add: canonicalize_def flags_i_def upper_char_nonletter)







lemma is_space_not_colon: "is_space c \<Longrightarrow> c \<noteq> CHR '':''"
  by (auto simp: is_space_def)




section \<open>cleanUsername without regular expressions\<close>















section \<open>Messages that survive the round trip\<close>































section \<open>What the groups of a match hold\<close>































section \<open>The time of a parsed message\<close>












section \<open>The messages parse returns\<close>
























section \<open>The round trip through the canonical form\<close>




end
